theory Spec2Isabelle
  imports Main "HOL-Library.Sublist"
begin

section \<open>Strings and errors\<close>

text \<open>
  Go strings are byte sequences; they are modelled as \<open>string\<close> (a list of
  \<open>char\<close>, each one byte).  The three control bytes the protocol uses are named.
\<close>

abbreviation TAB :: char where "TAB \<equiv> CHR 0x09"
abbreviation NL :: char where "NL \<equiv> CHR 0x0A"
abbreviation CR :: char where "CR \<equiv> CHR 0x0D"

text \<open>
  A Go \<open>error\<close> value.  The code compares a read error against \<open>io.EOF\<close> and
  otherwise only uses the text of an error, so an error is either the sentinel
  \<open>io.EOF\<close> or a value carrying its text (\<open>errors.New\<close>, \<open>fmt.Errorf\<close>).
  A nil error is \<open>None\<close> of \<open>go_error option\<close>.
\<close>

datatype go_error = io_EOF | errors_New string

fun Error_text :: "go_error \<Rightarrow> string" where
  "Error_text io_EOF = ''EOF''"
| "Error_text (errors_New s) = s"

text \<open>
  \<open>strings.Split(s, sep)\<close> for a one-byte separator: the pieces between the
  separators, always at least one piece (\<open>Split "" = [""]\<close>).
\<close>

fun Split :: "char \<Rightarrow> string \<Rightarrow> string list" where
  "Split sep [] = [[]]"
| "Split sep (c # cs) =
     (if c = sep then [] # Split sep cs
      else (case Split sep cs of
              [] \<Rightarrow> [[c]]
            | p # ps \<Rightarrow> (c # p) # ps))"

text \<open>
  \<open>strings.SplitN(s, sep, 2)\<close> for a one-byte separator: the text before the
  first separator and the unsplit remainder, or the whole text alone when it has no
  separator.
\<close>

definition SplitN2 :: "char \<Rightarrow> string \<Rightarrow> string list" where
  "SplitN2 sep s =
     (case dropWhile (\<lambda>c. c \<noteq> sep) s of
        [] \<Rightarrow> [s]
      | _ # rest \<Rightarrow> [takeWhile (\<lambda>c. c \<noteq> sep) s, rest])"

text \<open>\<open>strings.TrimRight(s, cutset)\<close>: drop every trailing byte that is in the cutset.\<close>

definition TrimRight :: "string \<Rightarrow> string \<Rightarrow> string" where
  "TrimRight s cutset = rev (dropWhile (\<lambda>c. c \<in> set cutset) (rev s))"

text \<open>\<open>strings.Replace(s, "\n", " ", -1)\<close>: every line feed becomes a space.\<close>

definition Replace_NL :: "string \<Rightarrow> string" where
  "Replace_NL s = map (\<lambda>c. if c = NL then CHR '' '' else c) s"

text \<open>\<open>strings.Contains(s, sub)\<close>, used to state what a message contains.\<close>

fun Contains :: "string \<Rightarrow> string \<Rightarrow> bool" where
  "Contains [] sub = (sub = [])"
| "Contains (c # cs) sub = (prefix sub (c # cs) \<or> Contains cs sub)"

text \<open>\<open>strings.Join(fields, sep)\<close> for a one-byte separator.\<close>

fun Join :: "string list \<Rightarrow> char \<Rightarrow> string" where
  "Join [] sep = []"
| "Join [f] sep = f"
| "Join (f # g # fs) sep = f @ sep # Join (g # fs) sep"

section \<open>The versioned codec: \<open>pipe/backend/query.go\<close>, \<open>pipe/backend/response.go\<close>\<close>

record Query =
  Q_ProtocolVersion :: int
  Q_QName :: string
  Q_QClass :: string
  Q_QType :: string
  Q_Id :: string
  RemoteIpAddress :: string
  LocalIpAddress :: string
  EdnsSubnetAddress :: string

record Response =
  R_ProtocolVersion :: int
  ScopeBits :: string
  Auth :: string
  R_QName :: string
  R_QClass :: string
  R_QType :: string
  TTL :: string
  R_Id :: string
  Content :: string

text \<open>The zero value \<open>Query{}\<close>.\<close>

definition zero_Query :: Query where
  "zero_Query =
     \<lparr>Q_ProtocolVersion = 0, Q_QName = [], Q_QClass = [], Q_QType = [], Q_Id = [],
      RemoteIpAddress = [], LocalIpAddress = [], EdnsSubnetAddress = []\<rparr>"

text \<open>
  \<open>Query.fromData\<close> fills the receiver in place and returns an error; the model
  returns the error or the filled query.  The indexes \<open>parts ! 5\<close> and
  \<open>parts ! 6\<close> are read only after the length check of their branch, the common
  ones only after a branch has passed, as in the source.
\<close>

definition fromData :: "Query \<Rightarrow> string \<Rightarrow> go_error + Query" where
  "fromData q data =
     (let parts = Split TAB data in
      if Q_ProtocolVersion q = 1 then
        (if length parts \<noteq> 5 then Inl (errors_New ''v1 query should have 5 data parts'')
         else Inr (q\<lparr>Q_QName := parts ! 0, Q_QClass := parts ! 1, Q_QType := parts ! 2,
                      Q_Id := parts ! 3, RemoteIpAddress := parts ! 4\<rparr>))
      else if Q_ProtocolVersion q = 2 then
        (if length parts \<noteq> 6 then Inl (errors_New ''v2 query should have 6 data parts'')
         else Inr (q\<lparr>LocalIpAddress := parts ! 5,
                      Q_QName := parts ! 0, Q_QClass := parts ! 1, Q_QType := parts ! 2,
                      Q_Id := parts ! 3, RemoteIpAddress := parts ! 4\<rparr>))
      else if Q_ProtocolVersion q = 3 then
        (if length parts \<noteq> 7 then Inl (errors_New ''v3 query should have 7 data parts'')
         else Inr (q\<lparr>LocalIpAddress := parts ! 5, EdnsSubnetAddress := parts ! 6,
                      Q_QName := parts ! 0, Q_QClass := parts ! 1, Q_QType := parts ! 2,
                      Q_Id := parts ! 3, RemoteIpAddress := parts ! 4\<rparr>))
      else Inl (errors_New ''Unknown protocol version in query''))"

text \<open>\<open>Query.String\<close>: \<open>fmt.Sprintf\<close> with \<open>%s\<close> verbs is concatenation.\<close>

definition Query_String :: "Query \<Rightarrow> go_error + string" where
  "Query_String q =
     (if Q_ProtocolVersion q < 1 \<or> Q_ProtocolVersion q > 3
      then Inl (errors_New ''Unknown protocol version in query'')
      else if Q_ProtocolVersion q = 1 then
        Inr (''Q'' @ TAB # Q_QName q @ TAB # Q_QClass q @ TAB # Q_QType q @ TAB # Q_Id q
             @ TAB # RemoteIpAddress q @ [NL])
      else if Q_ProtocolVersion q = 2 then
        Inr (''Q'' @ TAB # Q_QName q @ TAB # Q_QClass q @ TAB # Q_QType q @ TAB # Q_Id q
             @ TAB # RemoteIpAddress q @ TAB # LocalIpAddress q @ [NL])
      else if Q_ProtocolVersion q = 3 then
        Inr (''Q'' @ TAB # Q_QName q @ TAB # Q_QClass q @ TAB # Q_QType q @ TAB # Q_Id q
             @ TAB # RemoteIpAddress q @ TAB # LocalIpAddress q
             @ TAB # EdnsSubnetAddress q @ [NL])
      else Inl (errors_New ''Unknown protocol version in query''))"

text \<open>\<open>Response.String\<close>.\<close>

definition Response_String :: "Response \<Rightarrow> go_error + string" where
  "Response_String r =
     (if R_ProtocolVersion r = 1 \<or> R_ProtocolVersion r = 2 then
        Inr (''DATA'' @ TAB # R_QName r @ TAB # R_QClass r @ TAB # R_QType r @ TAB # TTL r
             @ TAB # R_Id r @ TAB # Content r @ [NL])
      else if R_ProtocolVersion r = 3 then
        Inr (''DATA'' @ TAB # ScopeBits r @ TAB # Auth r @ TAB # R_QName r @ TAB # R_QClass r
             @ TAB # R_QType r @ TAB # TTL r @ TAB # R_Id r @ TAB # Content r @ [NL])
      else Inl (errors_New ''Unknown protocol version in response''))"

section \<open>The protocol engine: package \<open>backend\<close>, type \<open>Backend\<close>\<close>

subsection \<open>Library calls the engine makes\<close>

text \<open>
  \<open>strconv.Atoi\<close>: an optional sign, then one or more decimal digits; anything
  else is a syntax error with value 0, and a value outside the 64-bit \<open>int\<close> is a
  range error with the nearest bound.  \<open>Negotiate\<close> only tests the error against
  nil, so the error texts are abbreviated.
\<close>

fun position :: "char \<Rightarrow> string \<Rightarrow> nat option" where
  "position c [] = None"
| "position c (x # xs) = (if x = c then Some 0 else map_option Suc (position c xs))"

definition digit_of :: "char \<Rightarrow> nat option" where
  "digit_of c = position c ''0123456789''"

fun parse_digits :: "nat \<Rightarrow> string \<Rightarrow> nat option" where
  "parse_digits n [] = Some n"
| "parse_digits n (c # cs) =
     (case digit_of c of
        None \<Rightarrow> None
      | Some k \<Rightarrow> parse_digits (n * 10 + k) cs)"

definition Atoi :: "string \<Rightarrow> int \<times> go_error option" where
  "Atoi s =
     (let neg = (case s of [] \<Rightarrow> False | c # _ \<Rightarrow> c = CHR ''-'');
          body = (case s of [] \<Rightarrow> [] | c # cs \<Rightarrow> if c = CHR ''-'' \<or> c = CHR ''+'' then cs else s)
      in if body = [] then (0, Some (errors_New ''invalid syntax''))
         else (case parse_digits 0 body of
                 None \<Rightarrow> (0, Some (errors_New ''invalid syntax''))
               | Some n \<Rightarrow>
                   if \<not> neg \<and> int n \<ge> 2 ^ 63
                   then (2 ^ 63 - 1, Some (errors_New ''value out of range''))
                   else if neg \<and> int n > 2 ^ 63
                   then (- (2 ^ 63), Some (errors_New ''value out of range''))
                   else (if neg then - int n else int n, None)))"

subsection \<open>The engine and its channel\<close>

text \<open>
  \<open>Backend\<close> holds the banner, the negotiated version and the buffered
  reader/writer \<open>io\<close>.  The transport is outside the repository, so the channel is
  modelled by what the engine can observe of it:
  \<^item> the reader is the bytes not yet read (\<open>io_unread\<close>) and the error the
    underlying stream reports once they run out (\<open>io_read_err\<close>, \<open>io.EOF\<close> for
    a stream that was closed);
  \<^item> the writer is the bytes written but not yet flushed (\<open>io_buffered\<close>), the
    bytes flushed to the peer (\<open>io_flushed\<close>), and how many further
    \<open>WriteString\<close>/\<open>Flush\<close> calls succeed before the channel breaks
    (\<open>io_budget\<close>, \<open>None\<close> for a channel that never breaks), with the error
    a broken channel reports (\<open>io_write_err\<close>).
\<close>

record Backend =
  Banner :: string
  B_ProtocolVersion :: int
  io_unread :: string
  io_read_err :: go_error
  io_buffered :: string
  io_flushed :: string
  io_budget :: "nat option"
  io_write_err :: go_error

text \<open>
  \<open>b.io.ReadString(delim)\<close>: the bytes up to and including the first delimiter;
  when the stream ends first, the bytes that were left together with the stream's error.
\<close>

definition ReadString :: "char \<Rightarrow> Backend \<Rightarrow> (string \<times> go_error option) \<times> Backend" where
  "ReadString delim b =
     (case dropWhile (\<lambda>c. c \<noteq> delim) (io_unread b) of
        [] \<Rightarrow> ((io_unread b, Some (io_read_err b)), b\<lparr>io_unread := []\<rparr>)
      | d # rest \<Rightarrow>
          ((takeWhile (\<lambda>c. c \<noteq> delim) (io_unread b) @ [d], None), b\<lparr>io_unread := rest\<rparr>))"

definition WriteString :: "string \<Rightarrow> Backend \<Rightarrow> go_error option \<times> Backend" where
  "WriteString s b =
     (case io_budget b of
        None \<Rightarrow> (None, b\<lparr>io_buffered := io_buffered b @ s\<rparr>)
      | Some 0 \<Rightarrow> (Some (io_write_err b), b)
      | Some (Suc n) \<Rightarrow> (None, b\<lparr>io_buffered := io_buffered b @ s, io_budget := Some n\<rparr>))"

definition Flush :: "Backend \<Rightarrow> go_error option \<times> Backend" where
  "Flush b =
     (case io_budget b of
        None \<Rightarrow> (None, b\<lparr>io_flushed := io_flushed b @ io_buffered b, io_buffered := []\<rparr>)
      | Some 0 \<Rightarrow> (Some (io_write_err b), b)
      | Some (Suc n) \<Rightarrow>
          (None, b\<lparr>io_flushed := io_flushed b @ io_buffered b, io_buffered := [],
                    io_budget := Some n\<rparr>))"

text \<open>
  A callback of \<open>Run\<close>.  It is given the engine and the decoded query and returns
  replies and an error; the model takes it as a total function of the two.
\<close>

type_synonym backend_Callback = "Backend \<Rightarrow> Query \<Rightarrow> Response list \<times> go_error option"

definition backend_New :: "string \<Rightarrow> go_error \<Rightarrow> nat option \<Rightarrow> go_error \<Rightarrow> string \<Rightarrow> Backend" where
  "backend_New r r_err w_budget w_err banner =
     \<lparr>Banner = banner, B_ProtocolVersion = 0, io_unread = r, io_read_err = r_err,
      io_buffered = [], io_flushed = [], io_budget = w_budget, io_write_err = w_err\<rparr>"

subsection \<open>\<open>Negotiate\<close>\<close>

definition Negotiate :: "Backend \<Rightarrow> go_error option \<times> Backend" where
  "Negotiate b =
     (case ReadString NL b of
        ((hello, Some err), b1) \<Rightarrow> (Some err, b1)
      | ((hello, None), b1) \<Rightarrow>
          (let parts = Split TAB (TrimRight hello [CR, NL]) in
           if length parts \<noteq> 2 \<or> parts ! 0 \<noteq> ''HELO''
           then (Some (errors_New ''Bad hello from client''), b1)
           else (case Atoi (parts ! 1) of
                   (version, err) \<Rightarrow>
                     if version < 1 \<or> version > 3 \<or> err \<noteq> None
                     then (Some (errors_New ''Unknown protocol version requested''), b1)
                     else (case WriteString (''OK'' @ TAB # Banner b1 @ [NL]) b1 of
                             (Some werr, b2) \<Rightarrow> (Some werr, b2)
                           | (None, b2) \<Rightarrow>
                               (case Flush b2 of
                                  (Some ferr, b3) \<Rightarrow> (Some ferr, b3)
                                | (None, b3) \<Rightarrow>
                                    (None, b3\<lparr>B_ProtocolVersion := version\<rparr>))))))"

subsection \<open>\<open>Run\<close>\<close>

definition handleQ :: "Backend \<Rightarrow> string \<Rightarrow> backend_Callback \<Rightarrow> Response list \<times> go_error option" where
  "handleQ b data callback =
     (let query = zero_Query\<lparr>Q_ProtocolVersion := B_ProtocolVersion b\<rparr>
      in case fromData query data of
           Inl err \<Rightarrow> ([], Some err)
         | Inr query' \<Rightarrow> callback b query')"

definition handleAXFR :: "Backend \<Rightarrow> Response list \<times> go_error option" where
  "handleAXFR b = ([], Some (errors_New ''AXFR requests not supported''))"

text \<open>
  The \<open>switch parts[0]\<close> of \<open>Run\<close>.  \<open>parts\<close> comes from \<open>SplitN\<close> with limit
  2, so it has one or two elements; the \<open>Q\<close> branch reads \<open>parts[1]\<close> without a
  length check, and Go's index expression panics when the element is not there.
  \<open>Inl\<close> is that run-time panic with its message.
\<close>

definition Run_switch ::
    "backend_Callback \<Rightarrow> Backend \<Rightarrow> string list \<Rightarrow> string + (Response list \<times> go_error option)" where
  "Run_switch callback b parts =
     (case parts of
        [] \<Rightarrow> Inl ''index out of range [0] with length 0''
      | cmd # args \<Rightarrow>
          if cmd = ''Q'' then
            (case args of
               [] \<Rightarrow> Inl ''index out of range [1] with length 1''
             | data # _ \<Rightarrow> Inr (handleQ b data callback))
          else if cmd = ''PING'' then Inr ([], None)
          else if cmd = ''AXFR'' then Inr (handleAXFR b)
          else Inr ([], Some (errors_New ''Bad command'')))"

text \<open>How one pass of the \<open>for\<close> loop of \<open>Run\<close> ends, and how \<open>Run\<close> ends.\<close>

datatype run_end = Returned "go_error option" | Panicked string

datatype flow = Continue Backend | Stop run_end Backend

text \<open>The \<open>if err != nil\<close> block: the log line, the failure sentinel, the flush.\<close>

definition Run_fail :: "go_error \<Rightarrow> Backend \<Rightarrow> flow" where
  "Run_fail err b =
     (let clean = Replace_NL (Error_text err);
          msg = ''LOG'' @ TAB # ''Error handling line: '' @ clean @ NL # ''FAIL'' @ [NL]
      in case WriteString msg b of
           (Some werr, b1) \<Rightarrow>
             Stop (Returned (Some (errors_New (Error_text werr @ '' while writing FAIL response'')))) b1
         | (None, b1) \<Rightarrow>
             (case Flush b1 of
                (Some ferr, b2) \<Rightarrow>
                  Stop (Returned (Some (errors_New (Error_text ferr @ '' while flushing FAIL response'')))) b2
              | (None, b2) \<Rightarrow> Continue b2))"

text \<open>The \<open>for _, response := range responses\<close> loop.\<close>

fun write_responses :: "Response list \<Rightarrow> Backend \<Rightarrow> go_error option \<times> Backend" where
  "write_responses [] b = (None, b)"
| "write_responses (response # rest) b =
     (let data = (case Response_String (response\<lparr>R_ProtocolVersion := B_ProtocolVersion b\<rparr>) of
                    Inl err \<Rightarrow> ''LOG'' @ TAB # ''Error serialising response: '' @ Error_text err @ [NL]
                  | Inr s \<Rightarrow> s)
      in case WriteString data b of
           (Some werr, b1) \<Rightarrow>
             (Some (errors_New (Error_text werr @ '' while writing DATA response'')), b1)
         | (None, b1) \<Rightarrow> write_responses rest b1)"

text \<open>The success path: the DATA lines, then \<open>END\<close> and the flush.\<close>

definition Run_respond :: "Response list \<Rightarrow> Backend \<Rightarrow> flow" where
  "Run_respond responses b =
     (case write_responses responses b of
        (Some derr, b1) \<Rightarrow> Stop (Returned (Some derr)) b1
      | (None, b1) \<Rightarrow>
          (case WriteString (''END'' @ [NL]) b1 of
             (Some werr, b2) \<Rightarrow>
               Stop (Returned (Some (errors_New (Error_text werr @ '' while writing END'')))) b2
           | (None, b2) \<Rightarrow>
               (case Flush b2 of
                  (Some ferr, b3) \<Rightarrow>
                    Stop (Returned (Some (errors_New (Error_text ferr @ '' while writing END'')))) b3
                | (None, b3) \<Rightarrow> Continue b3)))"

text \<open>One pass of the loop body.\<close>

definition Run_iteration :: "backend_Callback \<Rightarrow> Backend \<Rightarrow> flow" where
  "Run_iteration callback b =
     (case ReadString NL b of
        ((line, Some err), b1) \<Rightarrow>
          (if err = io_EOF then Stop (Returned None) b1 else Stop (Returned (Some err)) b1)
      | ((line, None), b1) \<Rightarrow>
          (case Run_switch callback b1 (SplitN2 TAB (TrimRight line [NL])) of
             Inl fault \<Rightarrow> Stop (Panicked fault) b1
           | Inr (responses, Some err) \<Rightarrow> Run_fail err b1
           | Inr (responses, None) \<Rightarrow> Run_respond responses b1))"

lemma WriteString_unread: "WriteString s b = (e, b') \<Longrightarrow> io_unread b' = io_unread b"
  by (auto simp: WriteString_def split: option.splits nat.splits)

lemma Flush_unread: "Flush b = (e, b') \<Longrightarrow> io_unread b' = io_unread b"
  by (auto simp: Flush_def split: option.splits nat.splits)

lemma write_responses_unread:
  "write_responses rs b = (e, b') \<Longrightarrow> io_unread b' = io_unread b"
proof (induction rs arbitrary: b)
  case Nil
  then show ?case by simp
next
  case (Cons r rs)
  define data where "data =
    (case Response_String (r\<lparr>R_ProtocolVersion := B_ProtocolVersion b\<rparr>) of
       Inl err \<Rightarrow> ''LOG'' @ TAB # ''Error serialising response: '' @ Error_text err @ [NL]
     | Inr s \<Rightarrow> s)"
  obtain w b1 where w: "WriteString data b = (w, b1)"
    by (metis surj_pair)
  then have u: "io_unread b1 = io_unread b"
    by (rule WriteString_unread)
  show ?case
  proof (cases w)
    case None
    with Cons.prems w have "write_responses rs b1 = (e, b')"
      by (simp add: data_def)
    then have "io_unread b' = io_unread b1" by (rule Cons.IH)
    with u show ?thesis by simp
  next
    case (Some werr)
    with Cons.prems w have "b' = b1" by (simp add: data_def)
    with u show ?thesis by simp
  qed
qed

lemma Run_fail_unread: "Run_fail err b = Continue b' \<Longrightarrow> io_unread b' = io_unread b"
  by (auto simp: Run_fail_def Let_def split: prod.splits option.splits
           dest!: WriteString_unread Flush_unread)

lemma Run_respond_unread: "Run_respond rs b = Continue b' \<Longrightarrow> io_unread b' = io_unread b"
  by (auto simp: Run_respond_def split: prod.splits option.splits
           dest!: WriteString_unread Flush_unread write_responses_unread)

lemma ReadString_unread:
  "ReadString delim b = ((line, None), b1) \<Longrightarrow> length (io_unread b1) < length (io_unread b)"
proof -
  assume r: "ReadString delim b = ((line, None), b1)"
  then obtain d rest where d: "dropWhile (\<lambda>c. c \<noteq> delim) (io_unread b) = d # rest"
    and b1: "b1 = b\<lparr>io_unread := rest\<rparr>"
    by (auto simp: ReadString_def split: list.splits)
  have "length (d # rest) \<le> length (io_unread b)"
    using length_dropWhile_le [of "\<lambda>c. c \<noteq> delim" "io_unread b"] d by simp
  then show ?thesis using b1 by simp
qed

lemma Run_iteration_unread:
  "Run_iteration callback b = Continue b' \<Longrightarrow> length (io_unread b') < length (io_unread b)"
proof -
  assume c: "Run_iteration callback b = Continue b'"
  obtain line err b1 where r: "ReadString NL b = ((line, err), b1)"
    by (metis surj_pair)
  show ?thesis
  proof (cases err)
    case (Some e)
    with c r show ?thesis by (simp add: Run_iteration_def split: if_splits)
  next
    case None
    with r have lt: "length (io_unread b1) < length (io_unread b)"
      by (simp add: ReadString_unread)
    from c r None have "io_unread b' = io_unread b1"
      by (auto simp: Run_iteration_def split: sum.splits prod.splits option.splits
               dest: Run_fail_unread Run_respond_unread)
    with lt show ?thesis by simp
  qed
qed

text \<open>
  \<open>Run\<close>: the loop.  Each pass that continues has consumed a line, so the loop
  ends on every finite input; the result is how it ended and the engine as it was left.
\<close>

function Run :: "backend_Callback \<Rightarrow> Backend \<Rightarrow> run_end \<times> Backend" where
  "Run callback b =
     (case Run_iteration callback b of
        Continue b' \<Rightarrow> Run callback b'
      | Stop e b' \<Rightarrow> (e, b'))"
  by pat_completeness auto
termination
  by (relation "measure (\<lambda>(callback, b). length (io_unread b))")
     (auto simp: Run_iteration_unread)

declare Run.simps [simp del]

subsection \<open>Notions used to state the engine's properties\<close>

text \<open>
  \<open>first_line s\<close> is the first line of the unread bytes with its line feed, and the
  bytes after it; \<open>hello_version hello\<close> is the version a hello line asks for:
  the line, stripped of trailing carriage returns and line feeds, must split on tabs
  into exactly \<open>HELO\<close> and the text of an integer from 1 to 3; \<open>negotiable b\<close>
  is the version asked for by the first line the engine will read.
  \<open>can_write k b\<close> says that the next \<open>k\<close> writes or flushes succeed, and
  \<open>spend k b\<close> is the channel after they did.
\<close>

definition first_line :: "string \<Rightarrow> (string \<times> string) option" where
  "first_line s =
     (case dropWhile (\<lambda>c. c \<noteq> NL) s of
        [] \<Rightarrow> None
      | d # rest \<Rightarrow> Some (takeWhile (\<lambda>c. c \<noteq> NL) s @ [d], rest))"

definition hello_version :: "string \<Rightarrow> int option" where
  "hello_version hello =
     (case Split TAB (TrimRight hello [CR, NL]) of
        [h, v] \<Rightarrow>
          if h = ''HELO'' then
            (case Atoi v of
               (n, None) \<Rightarrow> if 1 \<le> n \<and> n \<le> 3 then Some n else None
             | (n, Some err) \<Rightarrow> None)
          else None
      | _ \<Rightarrow> None)"

definition negotiable :: "Backend \<Rightarrow> int option" where
  "negotiable b =
     (case first_line (io_unread b) of
        None \<Rightarrow> None
      | Some (hello, rest) \<Rightarrow> hello_version hello)"

definition can_write :: "nat \<Rightarrow> Backend \<Rightarrow> bool" where
  "can_write k b = (case io_budget b of None \<Rightarrow> True | Some n \<Rightarrow> k \<le> n)"

definition spend :: "nat \<Rightarrow> Backend \<Rightarrow> Backend" where
  "spend k b = b\<lparr>io_budget := map_option (\<lambda>n. n - k) (io_budget b)\<rparr>"

text \<open>
  \<open>log_fail msg\<close> is the pair of lines sent for a request that failed with the
  flattened message \<open>msg\<close>; \<open>answered b rest out\<close> is the engine \<open>b\<close> after a
  pass of the loop that left \<open>rest\<close> unread and wrote and flushed \<open>out\<close>.
\<close>

definition log_fail :: "string \<Rightarrow> string" where
  "log_fail msg = ''LOG'' @ TAB # ''Error handling line: '' @ msg @ NL # ''FAIL'' @ [NL]"

definition answered :: "Backend \<Rightarrow> string \<Rightarrow> string \<Rightarrow> Backend" where
  "answered b rest out =
     spend 2 (b\<lparr>io_unread := rest, io_flushed := io_flushed b @ io_buffered b @ out,
                io_buffered := []\<rparr>)"

text \<open>
  \<open>bare_Q_line s rest\<close>: the bytes \<open>s\<close> hold a line that is \<open>Q\<close> alone, with
  \<open>rest\<close> after it.
\<close>

definition bare_Q_line :: "string \<Rightarrow> string \<Rightarrow> bool" where
  "bare_Q_line s rest = (\<exists>pre. s = pre @ ''Q'' @ NL # rest \<and> (pre = [] \<or> last pre = NL))"

section \<open>The dispatch context: \<open>pipe/dsl/context.go\<close>\<close>

record Context =
  DefaultTTL :: int
  C_Query :: Query
  C_QType :: string
  Matches :: "string list"
  C_Error :: "go_error option"
  Answers :: "Response list"

text \<open>\<open>strconv.Itoa\<close>, which \<open>ReplyExtra\<close> uses for the TTL.\<close>

definition digit_char :: "nat \<Rightarrow> char" where
  "digit_char k = ''0123456789'' ! k"

fun Itoa_nat :: "nat \<Rightarrow> string" where
  "Itoa_nat n = (if n < 10 then [digit_char n] else Itoa_nat (n div 10) @ [digit_char (n mod 10)])"

declare Itoa_nat.simps [simp del]

definition Itoa :: "int \<Rightarrow> string" where
  "Itoa i = (if i < 0 then CHR ''-'' # Itoa_nat (nat (- i)) else Itoa_nat (nat i))"

definition ReplyExtra :: "string \<Rightarrow> string \<Rightarrow> int \<Rightarrow> Context \<Rightarrow> Context" where
  "ReplyExtra qname content ttl c =
     c\<lparr>Answers := Answers c @
          [\<lparr>R_ProtocolVersion = 0, ScopeBits = [], Auth = [], R_QName = qname,
            R_QClass = Q_QClass (C_Query c), R_QType = C_QType c, TTL = Itoa ttl,
            R_Id = Q_Id (C_Query c), Content = content\<rparr>]\<rparr>"

definition Reply :: "string \<Rightarrow> Context \<Rightarrow> Context" where
  "Reply content c = ReplyExtra (Q_QName (C_Query c)) content (DefaultTTL c) c"

definition ReplyTTL :: "string \<Rightarrow> int \<Rightarrow> Context \<Rightarrow> Context" where
  "ReplyTTL content ttl c = ReplyExtra (Q_QName (C_Query c)) content ttl c"

section \<open>The dispatch router: \<open>pipe/dsl/dsl.go\<close>\<close>

text \<open>
  A handler (and the before-hook) is given a pointer to the shared context and may
  change any field of it; the model takes it as a total function from the context it
  is given to the context it leaves.

  The compiled pattern of a node is used through \<open>FindStringSubmatch\<close> only: nil
  when the name does not match (\<open>None\<close>), otherwise the whole match followed by the
  capture groups.
\<close>

type_synonym dsl_Callback = "Context \<Rightarrow> Context"

record callbackNode =
  matcher :: "string \<Rightarrow> string list option"
  fn :: dsl_Callback

record DSL =
  callbacks :: "string \<Rightarrow> callbackNode list option"
  qtypeSort :: "string list"
  defaultTTL :: int
  beforeCallback :: "dsl_Callback option"

definition NewWithTTL :: "int \<Rightarrow> DSL" where
  "NewWithTTL ttl =
     \<lparr>callbacks = Map.empty, qtypeSort = [], defaultTTL = ttl, beforeCallback = None\<rparr>"

definition dsl_New :: DSL where
  "dsl_New = NewWithTTL 3600"

definition Before :: "dsl_Callback \<Rightarrow> DSL \<Rightarrow> DSL" where
  "Before f d = d\<lparr>beforeCallback := Some f\<rparr>"

text \<open>\<open>d.callbacks[qtype]\<close>: a missing key reads as the nil slice.\<close>

definition callbacks_of :: "DSL \<Rightarrow> string \<Rightarrow> callbackNode list" where
  "callbacks_of d qtype = (case callbacks d qtype of None \<Rightarrow> [] | Some ns \<Rightarrow> ns)"

text \<open>The search loop of \<open>Register\<close> over \<open>d.qtypeSort\<close>.\<close>

fun alreadyIn :: "string \<Rightarrow> string list \<Rightarrow> bool" where
  "alreadyIn qtype [] = False"
| "alreadyIn qtype (prospect # rest) = (if prospect = qtype then True else alreadyIn qtype rest)"

definition Register :: "string \<Rightarrow> (string \<Rightarrow> string list option) \<Rightarrow> dsl_Callback \<Rightarrow> DSL \<Rightarrow> DSL" where
  "Register qtype re f d =
     (let d1 = (if \<not> alreadyIn qtype (qtypeSort d)
                then d\<lparr>qtypeSort := qtypeSort d @ [qtype]\<rparr> else d);
          node = \<lparr>matcher = re, fn = f\<rparr>
      in d1\<lparr>callbacks := (callbacks d1)(qtype \<mapsto> callbacks_of d1 qtype @ [node])\<rparr>)"

text \<open>
  \<open>runNode\<close>.  The deferred function restores \<open>c.Matches\<close> when \<open>runNode\<close>
  returns; \<open>matches[1:]\<close> is taken only when \<open>matches\<close> is not empty.
\<close>

definition runNode :: "DSL \<Rightarrow> Context \<Rightarrow> callbackNode \<Rightarrow> Context" where
  "runNode d c node =
     (case matcher node (Q_QName (C_Query c)) of
        None \<Rightarrow> c
      | Some matches \<Rightarrow>
          if length matches > 0 then
            (let oldmatches = Matches c;
                 c1 = c\<lparr>Matches := tl matches\<rparr>;
                 c2 = (case beforeCallback d of None \<Rightarrow> c1 | Some hook \<Rightarrow> hook c1);
                 c3 = (if C_Error c2 = None then fn node c2 else c2)
             in c3\<lparr>Matches := oldmatches\<rparr>)
          else c)"

text \<open>
  The two nested loops of \<open>Lookup\<close>.  \<open>Inl\<close> is the \<open>return nil, c.Error\<close>
  inside the inner loop, which leaves both loops at once.
\<close>

fun Lookup_nodes :: "DSL \<Rightarrow> Context \<Rightarrow> callbackNode list \<Rightarrow> go_error + Context" where
  "Lookup_nodes d c [] = Inr c"
| "Lookup_nodes d c (node # rest) =
     (let c' = runNode d c node in
      case C_Error c' of
        Some err \<Rightarrow> Inl err
      | None \<Rightarrow> Lookup_nodes d c' rest)"

fun Lookup_qtypes :: "DSL \<Rightarrow> Context \<Rightarrow> string list \<Rightarrow> go_error + Context" where
  "Lookup_qtypes d c [] = Inr c"
| "Lookup_qtypes d c (qtype # rest) =
     (case Lookup_nodes d (c\<lparr>C_QType := qtype\<rparr>) (callbacks_of d qtype) of
        Inl err \<Rightarrow> Inl err
      | Inr c' \<Rightarrow> Lookup_qtypes d c' rest)"

definition Lookup :: "DSL \<Rightarrow> Query \<Rightarrow> Response list \<times> go_error option" where
  "Lookup d q =
     (let c = \<lparr>DefaultTTL = defaultTTL d, C_Query = q, C_QType = [], Matches = [],
               C_Error = None, Answers = []\<rparr>;
          runOn = (if Q_QType q = ''ANY'' then qtypeSort d else [Q_QType q])
      in case Lookup_qtypes d c runOn of
           Inl err \<Rightarrow> ([], Some err)
         | Inr c' \<Rightarrow> (Answers c', None))"

subsection \<open>The same pass, with the calls it makes recorded\<close>

text \<open>
  To state which calls a dispatch pass makes, the functions above are repeated with a
  record of the calls: \<open>EvNode qtype node c\<close> when \<open>Lookup\<close> passes a node to
  \<open>runNode\<close> under the loop's \<open>qtype\<close> with the context \<open>c\<close>,
  \<open>EvBefore c c'\<close> when the before-hook
  is called with context \<open>c\<close> and leaves \<open>c'\<close>, \<open>EvHandler node c c'\<close> when
  the handler of \<open>node\<close> is called with \<open>c\<close> and leaves \<open>c'\<close>.  Lemmas
  \<open>runNode_tr_result\<close> and \<open>Lookup_tr_result\<close> show that the results are those
  of the functions above.
\<close>

datatype event =
    EvNode string callbackNode Context
  | EvBefore Context Context
  | EvHandler callbackNode Context Context

definition runNode_tr :: "DSL \<Rightarrow> Context \<Rightarrow> callbackNode \<Rightarrow> Context \<times> event list" where
  "runNode_tr d c node =
     (case matcher node (Q_QName (C_Query c)) of
        None \<Rightarrow> (c, [])
      | Some matches \<Rightarrow>
          if length matches > 0 then
            (let oldmatches = Matches c;
                 c1 = c\<lparr>Matches := tl matches\<rparr>;
                 (c2, tr1) = (case beforeCallback d of
                                None \<Rightarrow> (c1, [])
                              | Some hook \<Rightarrow> (hook c1, [EvBefore c1 (hook c1)]));
                 (c3, tr2) = (if C_Error c2 = None
                              then (fn node c2, [EvHandler node c2 (fn node c2)])
                              else (c2, []))
             in (c3\<lparr>Matches := oldmatches\<rparr>, tr1 @ tr2))
          else (c, []))"

fun Lookup_nodes_tr ::
    "DSL \<Rightarrow> string \<Rightarrow> Context \<Rightarrow> callbackNode list \<Rightarrow> (go_error + Context) \<times> event list" where
  "Lookup_nodes_tr d qtype c [] = (Inr c, [])"
| "Lookup_nodes_tr d qtype c (node # rest) =
     (case runNode_tr d c node of
        (c', tr) \<Rightarrow>
          (case C_Error c' of
             Some err \<Rightarrow> (Inl err, EvNode qtype node c # tr)
           | None \<Rightarrow>
               (case Lookup_nodes_tr d qtype c' rest of
                  (r, tr') \<Rightarrow> (r, EvNode qtype node c # tr @ tr'))))"

fun Lookup_qtypes_tr ::
    "DSL \<Rightarrow> Context \<Rightarrow> string list \<Rightarrow> (go_error + Context) \<times> event list" where
  "Lookup_qtypes_tr d c [] = (Inr c, [])"
| "Lookup_qtypes_tr d c (qtype # rest) =
     (case Lookup_nodes_tr d qtype (c\<lparr>C_QType := qtype\<rparr>) (callbacks_of d qtype) of
        (Inl err, tr) \<Rightarrow> (Inl err, tr)
      | (Inr c', tr) \<Rightarrow>
          (case Lookup_qtypes_tr d c' rest of
             (r, tr') \<Rightarrow> (r, tr @ tr')))"

definition Lookup_tr :: "DSL \<Rightarrow> Query \<Rightarrow> (Response list \<times> go_error option) \<times> event list" where
  "Lookup_tr d q =
     (let c = \<lparr>DefaultTTL = defaultTTL d, C_Query = q, C_QType = [], Matches = [],
               C_Error = None, Answers = []\<rparr>;
          runOn = (if Q_QType q = ''ANY'' then qtypeSort d else [Q_QType q])
      in case Lookup_qtypes_tr d c runOn of
           (Inl err, tr) \<Rightarrow> (([], Some err), tr)
         | (Inr c', tr) \<Rightarrow> ((Answers c', None), tr))"

text \<open>What is read off a record of calls.\<close>

fun ev_error :: "event \<Rightarrow> go_error option" where
  "ev_error (EvNode qtype node c) = None"
| "ev_error (EvBefore c c') = C_Error c'"
| "ev_error (EvHandler node c c') = C_Error c'"

fun accumulated :: "Response list \<Rightarrow> event list \<Rightarrow> Response list" where
  "accumulated a [] = a"
| "accumulated a (EvNode qtype node c # tr) = accumulated a tr"
| "accumulated a (EvBefore c c' # tr) = accumulated (Answers c') tr"
| "accumulated a (EvHandler node c c' # tr) = accumulated (Answers c') tr"

fun ev_attempts :: "event list \<Rightarrow> (string \<times> callbackNode) list" where
  "ev_attempts [] = []"
| "ev_attempts (EvNode qtype node c # tr) = (qtype, node) # ev_attempts tr"
| "ev_attempts (ev # tr) = ev_attempts tr"

fun ev_invoked :: "event list \<Rightarrow> callbackNode list" where
  "ev_invoked [] = []"
| "ev_invoked (EvHandler node c c' # tr) = node # ev_invoked tr"
| "ev_invoked (ev # tr) = ev_invoked tr"

fun ev_before_inputs :: "event list \<Rightarrow> Context list" where
  "ev_before_inputs [] = []"
| "ev_before_inputs (EvBefore c c' # tr) = c # ev_before_inputs tr"
| "ev_before_inputs (ev # tr) = ev_before_inputs tr"

text \<open>The errors that the recorded calls left set, in order.\<close>

fun ev_errors :: "event list \<Rightarrow> go_error list" where
  "ev_errors [] = []"
| "ev_errors (ev # tr) = (case ev_error ev of None \<Rightarrow> ev_errors tr | Some e \<Rightarrow> e # ev_errors tr)"

text \<open>
  What a pass carries from one call to the next: the default TTL, the query, the
  error flag and the replies.  (The capture groups are set and restored around each
  node, the active type is set at the start of each type.)  \<open>chained k tr\<close> says
  that, starting from \<open>k\<close>, every context recorded in \<open>tr\<close> carries what the
  call before it left; \<open>carried k tr\<close> is what the last call left.
\<close>

type_synonym pass_state = "int \<times> Query \<times> go_error option \<times> Response list"

definition carried_state :: "Context \<Rightarrow> pass_state" where
  "carried_state c = (DefaultTTL c, C_Query c, C_Error c, Answers c)"

fun chained :: "pass_state \<Rightarrow> event list \<Rightarrow> bool" where
  "chained k [] = True"
| "chained k (EvNode qtype node c # tr) = (carried_state c = k \<and> chained k tr)"
| "chained k (EvBefore c c' # tr) = (carried_state c = k \<and> chained (carried_state c') tr)"
| "chained k (EvHandler node c c' # tr) = (carried_state c = k \<and> chained (carried_state c') tr)"

fun carried :: "pass_state \<Rightarrow> event list \<Rightarrow> pass_state" where
  "carried k [] = k"
| "carried k (EvNode qtype node c # tr) = carried k tr"
| "carried k (EvBefore c c' # tr) = carried (carried_state c') tr"
| "carried k (EvHandler node c c' # tr) = carried (carried_state c') tr"

text \<open>The nodes passed to \<open>runNode\<close>, each with the context it was passed with.\<close>

fun ev_tries :: "event list \<Rightarrow> (callbackNode \<times> Context) list" where
  "ev_tries [] = []"
| "ev_tries (EvNode qtype node c # tr) = (node, c) # ev_tries tr"
| "ev_tries (ev # tr) = ev_tries tr"

text \<open>
  \<open>name_matches node name\<close>: the pattern of the node matches the name.
  \<open>runs_handler d node c\<close>: in context \<open>c\<close> the pattern of the node matches the
  query name and the before-hook of \<open>d\<close>, if set, leaves no error.
  \<open>keeps_query f\<close>: the callback \<open>f\<close> does not change the query.
  \<open>candidates d q\<close>: the nodes the two loops of \<open>Lookup\<close> range over, in order,
  each with the type it is run as.
\<close>

definition name_matches :: "callbackNode \<Rightarrow> string \<Rightarrow> bool" where
  "name_matches node name = (case matcher node name of None \<Rightarrow> False | Some ms \<Rightarrow> ms \<noteq> [])"

definition runs_handler :: "DSL \<Rightarrow> callbackNode \<Rightarrow> Context \<Rightarrow> bool" where
  "runs_handler d node c =
     (case matcher node (Q_QName (C_Query c)) of
        None \<Rightarrow> False
      | Some ms \<Rightarrow>
          ms \<noteq> [] \<and>
          C_Error (case beforeCallback d of
                     None \<Rightarrow> c\<lparr>Matches := tl ms\<rparr>
                   | Some hook \<Rightarrow> hook (c\<lparr>Matches := tl ms\<rparr>)) = None)"

definition keeps_query :: "dsl_Callback \<Rightarrow> bool" where
  "keeps_query f = (\<forall>c. C_Query (f c) = C_Query c)"

definition candidates :: "DSL \<Rightarrow> Query \<Rightarrow> (string \<times> callbackNode) list" where
  "candidates d q =
     concat (map (\<lambda>t. map (Pair t) (callbacks_of d t))
               (if Q_QType q = ''ANY'' then qtypeSort d else [Q_QType q]))"

text \<open>A node whose pattern matches every name.\<close>

definition always_matches :: "callbackNode \<Rightarrow> bool" where
  "always_matches node =
     (\<forall>name. case matcher node name of None \<Rightarrow> False | Some ms \<Rightarrow> ms \<noteq> [])"

text \<open>
  What the proofs below maintain along a pass that started in context \<open>c\<close>, gave
  \<open>r\<close> and recorded \<open>tr\<close>.
\<close>

definition pass_ok :: "Context \<Rightarrow> go_error + Context \<Rightarrow> event list \<Rightarrow> bool" where
  "pass_ok c r tr =
     (ev_errors tr = (case r of Inl e \<Rightarrow> [e] | Inr c' \<Rightarrow> [])
      \<and> (case r of Inl e \<Rightarrow> True
          | Inr c' \<Rightarrow> C_Error c' = None \<and> Answers c' = accumulated (Answers c) tr)
      \<and> list_all (\<lambda>cin. C_Error cin = None) (ev_before_inputs tr))"

subsection \<open>A router built by a sequence of \<open>Register\<close> calls\<close>

text \<open>
  \<open>registers regs d\<close> makes the calls \<open>Register qtype re f\<close> of \<open>regs\<close> in order.
  \<open>nodes_for regs qtype\<close> are the nodes registered for \<open>qtype\<close> in the order of
  their registration, \<open>first_seen\<close> the types in the order each was first registered.
\<close>

fun registers :: "(string \<times> (string \<Rightarrow> string list option) \<times> dsl_Callback) list \<Rightarrow> DSL \<Rightarrow> DSL" where
  "registers [] d = d"
| "registers ((qtype, re, f) # regs) d = registers regs (Register qtype re f d)"

fun nodes_for ::
    "(string \<times> (string \<Rightarrow> string list option) \<times> dsl_Callback) list \<Rightarrow> string \<Rightarrow> callbackNode list" where
  "nodes_for [] qtype = []"
| "nodes_for ((t, re, f) # regs) qtype =
     (if t = qtype then \<lparr>matcher = re, fn = f\<rparr> # nodes_for regs qtype else nodes_for regs qtype)"

fun first_seen :: "string list \<Rightarrow> string list" where
  "first_seen [] = []"
| "first_seen (t # ts) = t # filter (\<lambda>u. u \<noteq> t) (first_seen ts)"

section \<open>Fixtures of the tests: \<open>test_helpers\<close>\<close>

definition EmptyDispatch :: backend_Callback where
  "EmptyDispatch b q = ([], None)"

definition FakeQuery :: "int \<Rightarrow> Query" where
  "FakeQuery protoVersion =
     \<lparr>Q_ProtocolVersion = protoVersion, Q_QName = ''example.com'', Q_QClass = ''IN'',
      Q_QType = ''ANY'', Q_Id = ''-1'', RemoteIpAddress = ''127.0.0.2'',
      LocalIpAddress = (if protoVersion > 1 then ''127.0.0.1'' else []),
      EdnsSubnetAddress = (if protoVersion > 2 then ''127.0.0.3'' else [])\<rparr>"

definition FakeResponse :: "int \<Rightarrow> Response" where
  "FakeResponse protoVersion =
     \<lparr>R_ProtocolVersion = protoVersion,
      ScopeBits = (if protoVersion > 2 then ''24'' else []),
      Auth = (if protoVersion > 2 then ''auth'' else []),
      R_QName = ''example.com'', R_QClass = ''IN'', R_QType = ''ANY'', TTL = ''3600'',
      R_Id = ''-1'', Content = ''foo''\<rparr>"

text \<open>
  Patterns, handlers and registrations used as concrete inputs: \<open>match_all\<close> is
  the pattern \<open>.*\<close>, \<open>match_name root\<close> the anchored literal \<open>^root$\<close>,
  \<open>match_dot_com\<close> the pattern \<open>^(.*)\.com$\<close> with its capture group;
  \<open>failing\<close> follows the SSHFP example of the package comment (a reply, the
  error, another reply); \<open>guard\<close> is a before-hook that refuses a third answer.
\<close>

definition match_all :: "string \<Rightarrow> string list option" where
  "match_all name = Some [name]"

definition match_name :: "string \<Rightarrow> string \<Rightarrow> string list option" where
  "match_name root name = (if name = root then Some [name] else None)"

definition demo_regs :: "(string \<times> (string \<Rightarrow> string list option) \<times> dsl_Callback) list" where
  "demo_regs =
     [(''MX'', match_all, Reply ''10 mail.example.com''),
      (''A'', match_all, Reply ''1.2.3.4''),
      (''TXT'', match_all, Reply ''hello''),
      (''A'', match_all, Reply ''5.6.7.8'')]"

definition failing :: dsl_Callback where
  "failing c = (Reply ''1 2 e242'' (Reply ''1 1 f1d2'' c\<lparr>C_Error := Some (errors_New ''No SSHFP on unsigned zones'')\<rparr>))"

definition guard :: dsl_Callback where
  "guard c = (if length (Answers c) \<ge> 2 then c\<lparr>C_Error := Some (errors_New ''enough'')\<rparr> else c)"

definition match_dot_com :: "string \<Rightarrow> string list option" where
  "match_dot_com name =
     (if length name \<ge> 4 \<and> drop (length name - 4) name = ''.com''
      then Some [name, take (length name - 4) name] else None)"

definition mixed_regs :: "(string \<times> (string \<Rightarrow> string list option) \<times> dsl_Callback) list" where
  "mixed_regs =
     [(''A'', match_name ''example.com'', Reply ''1.2.3.4''),
      (''A'', match_name ''example.org'', Reply ''9.9.9.9''),
      (''A'', match_dot_com, Reply ''5.6.7.8'')]"

definition demo_Context :: Context where
  "demo_Context =
     \<lparr>DefaultTTL = 3600, C_Query = FakeQuery 3, C_QType = ''TXT'', Matches = [''outer''],
      C_Error = None, Answers = []\<rparr>"

text \<open>An engine after a handshake at version \<open>v\<close>, as \<open>BuildAndNegotiate\<close> leaves it.\<close>

definition negotiated :: "int \<Rightarrow> string \<Rightarrow> Backend" where
  "negotiated v input =
     (backend_New input io_EOF None io_EOF ''Testing Backend'')\<lparr>B_ProtocolVersion := v\<rparr>"

section \<open>Properties of the codec\<close>

subsection \<open>Splitting and joining\<close>

lemma Split_no_sep: "sep \<notin> set f \<Longrightarrow> Split sep f = [f]"
  by (induction f) auto

lemma Split_append_sep:
  "sep \<notin> set f \<Longrightarrow> Split sep (f @ sep # s) = f # Split sep s"
  by (induction f) auto

lemma Split_Join:
  "flds \<noteq> [] \<Longrightarrow> \<forall>f\<in>set flds. sep \<notin> set f \<Longrightarrow> Split sep (Join flds sep) = flds"
proof (induction flds sep rule: Join.induct)
  case (1 sep)
  then show ?case by simp
next
  case (2 f sep)
  then show ?case by (simp add: Split_no_sep)
next
  case (3 f g fs sep)
  then show ?case by (simp add: Split_append_sep)
qed

lemma set_Join: "set (Join flds sep) \<subseteq> insert sep (\<Union>f\<in>set flds. set f)"
  by (induction flds sep rule: Join.induct) auto

lemma TrimRight_line: "NL \<notin> set s \<Longrightarrow> TrimRight (s @ [NL]) [NL] = s"
proof -
  assume n: "NL \<notin> set s"
  have "dropWhile (\<lambda>c. c \<in> set [NL]) (rev s) = rev s"
    by (rule dropWhile_id) (use n in auto)
  then show ?thesis by (simp add: TrimRight_def)
qed

lemma dropWhile_first_sep:
  "sep \<notin> set cmd \<Longrightarrow> dropWhile (\<lambda>c. c \<noteq> sep) (cmd @ sep # rest) = sep # rest"
  by (induction cmd) auto

lemma takeWhile_first_sep:
  "sep \<notin> set cmd \<Longrightarrow> takeWhile (\<lambda>c. c \<noteq> sep) (cmd @ sep # rest) = cmd"
  by (induction cmd) auto

lemma SplitN2_first:
  "sep \<notin> set cmd \<Longrightarrow> SplitN2 sep (cmd @ sep # rest) = [cmd, rest]"
  by (simp add: SplitN2_def dropWhile_first_sep takeWhile_first_sep)

subsection \<open>Decoding a query\<close>

text \<open>
  C3.  At version 1, 2 or 3 a data text whose number of tab-separated fields is not
  5, 6 or 7 respectively is refused with the error "vN query should have M data
  parts" for that version and count; with exactly that number it is decoded, name,
  class, type, id and remote address from fields 0 to 4, the local address from
  field 5 at versions 2 and 3, the client subnet from field 6 at version 3; at any
  version below 1 or above 3 decoding fails with "Unknown protocol version in query".
\<close>

theorem C3_fromData:
  "(Q_ProtocolVersion q = 1 \<and> length (Split TAB data) \<noteq> 5 \<longrightarrow>
      fromData q data = Inl (errors_New ''v1 query should have 5 data parts''))
   \<and> (Q_ProtocolVersion q = 2 \<and> length (Split TAB data) \<noteq> 6 \<longrightarrow>
      fromData q data = Inl (errors_New ''v2 query should have 6 data parts''))
   \<and> (Q_ProtocolVersion q = 3 \<and> length (Split TAB data) \<noteq> 7 \<longrightarrow>
      fromData q data = Inl (errors_New ''v3 query should have 7 data parts''))
   \<and> (Q_ProtocolVersion q = 1 \<and> length (Split TAB data) = 5 \<longrightarrow>
      fromData q data =
        Inr (q\<lparr>Q_QName := Split TAB data ! 0, Q_QClass := Split TAB data ! 1,
               Q_QType := Split TAB data ! 2, Q_Id := Split TAB data ! 3,
               RemoteIpAddress := Split TAB data ! 4\<rparr>))
   \<and> (Q_ProtocolVersion q = 2 \<and> length (Split TAB data) = 6 \<longrightarrow>
      fromData q data =
        Inr (q\<lparr>Q_QName := Split TAB data ! 0, Q_QClass := Split TAB data ! 1,
               Q_QType := Split TAB data ! 2, Q_Id := Split TAB data ! 3,
               RemoteIpAddress := Split TAB data ! 4, LocalIpAddress := Split TAB data ! 5\<rparr>))
   \<and> (Q_ProtocolVersion q = 3 \<and> length (Split TAB data) = 7 \<longrightarrow>
      fromData q data =
        Inr (q\<lparr>Q_QName := Split TAB data ! 0, Q_QClass := Split TAB data ! 1,
               Q_QType := Split TAB data ! 2, Q_Id := Split TAB data ! 3,
               RemoteIpAddress := Split TAB data ! 4, LocalIpAddress := Split TAB data ! 5,
               EdnsSubnetAddress := Split TAB data ! 6\<rparr>))
   \<and> (Q_ProtocolVersion q < 1 \<or> Q_ProtocolVersion q > 3 \<longrightarrow>
      fromData q data = Inl (errors_New ''Unknown protocol version in query''))"
  by (auto simp: fromData_def Let_def)

theorem C3_witness:
  "fromData (zero_Query\<lparr>Q_ProtocolVersion := 1\<rparr>) ''foo'' =
     Inl (errors_New ''v1 query should have 5 data parts'')
   \<and> fromData (zero_Query\<lparr>Q_ProtocolVersion := 2\<rparr>) ''foo'' =
     Inl (errors_New ''v2 query should have 6 data parts'')
   \<and> fromData (zero_Query\<lparr>Q_ProtocolVersion := 3\<rparr>) ''foo'' =
     Inl (errors_New ''v3 query should have 7 data parts'')
   \<and> fromData (zero_Query\<lparr>Q_ProtocolVersion := 1\<rparr>)
        (Join [''example.com'', ''IN'', ''ANY'', ''-1'', ''127.0.0.2''] TAB) = Inr (FakeQuery 1)
   \<and> fromData (zero_Query\<lparr>Q_ProtocolVersion := 2\<rparr>)
        (Join [''example.com'', ''IN'', ''ANY'', ''-1'', ''127.0.0.2'', ''127.0.0.1''] TAB) = Inr (FakeQuery 2)
   \<and> fromData (zero_Query\<lparr>Q_ProtocolVersion := 3\<rparr>)
        (Join [''example.com'', ''IN'', ''ANY'', ''-1'', ''127.0.0.2'', ''127.0.0.1'', ''127.0.0.3''] TAB)
      = Inr (FakeQuery 3)
   \<and> fromData (zero_Query\<lparr>Q_ProtocolVersion := 4\<rparr>) ''foo'' =
     Inl (errors_New ''Unknown protocol version in query'')"
  using C3_fromData [of "zero_Query\<lparr>Q_ProtocolVersion := 1\<rparr>" "''foo''"]
    C3_fromData [of "zero_Query\<lparr>Q_ProtocolVersion := 2\<rparr>" "''foo''"]
    C3_fromData [of "zero_Query\<lparr>Q_ProtocolVersion := 3\<rparr>" "''foo''"]
    C3_fromData [of "zero_Query\<lparr>Q_ProtocolVersion := 1\<rparr>"
      "Join [''example.com'', ''IN'', ''ANY'', ''-1'', ''127.0.0.2''] TAB"]
    C3_fromData [of "zero_Query\<lparr>Q_ProtocolVersion := 2\<rparr>"
      "Join [''example.com'', ''IN'', ''ANY'', ''-1'', ''127.0.0.2'', ''127.0.0.1''] TAB"]
    C3_fromData [of "zero_Query\<lparr>Q_ProtocolVersion := 3\<rparr>"
      "Join [''example.com'', ''IN'', ''ANY'', ''-1'', ''127.0.0.2'', ''127.0.0.1'', ''127.0.0.3''] TAB"]
    C3_fromData [of "zero_Query\<lparr>Q_ProtocolVersion := 4\<rparr>" "''foo''"]
  by (simp add: zero_Query_def FakeQuery_def)

subsection \<open>Decoding and encoding again\<close>

text \<open>
  C7.  Let \<open>v\<close> be 1, 2 or 3 and take \<open>v + 4\<close> fields without tabs or line
  feeds.  The line made of the command token \<open>Q\<close>, the fields joined by tabs and
  one line feed is split by \<open>Run\<close> into \<open>Q\<close> and the joined fields; decoding
  these at version \<open>v\<close> succeeds, and encoding the decoded query gives the line
  back, byte for byte.
\<close>

theorem C7_roundtrip:
  assumes v: "v = 1 \<or> v = 2 \<or> v = 3"
    and len: "int (length flds) = v + 4"
    and clean: "\<forall>f\<in>set flds. TAB \<notin> set f \<and> NL \<notin> set f"
  shows "SplitN2 TAB (TrimRight (''Q'' @ TAB # Join flds TAB @ [NL]) [NL]) = [''Q'', Join flds TAB]
    \<and> (case fromData (q0\<lparr>Q_ProtocolVersion := v\<rparr>) (Join flds TAB) of
          Inl err \<Rightarrow> False
        | Inr q \<Rightarrow> Query_String q = Inr (''Q'' @ TAB # Join flds TAB @ [NL]))"
proof -
  have ne: "flds \<noteq> []" using v len by auto
  have nl: "NL \<notin> set (''Q'' @ TAB # Join flds TAB)"
    using set_Join [of flds TAB] clean by auto
  have "TrimRight ((''Q'' @ TAB # Join flds TAB) @ [NL]) [NL] = ''Q'' @ TAB # Join flds TAB"
    using nl by (rule TrimRight_line)
  then have first: "SplitN2 TAB (TrimRight (''Q'' @ TAB # Join flds TAB @ [NL]) [NL]) = [''Q'', Join flds TAB]"
    using SplitN2_first [of TAB "''Q''" "Join flds TAB"] by simp
  have sp: "Split TAB (Join flds TAB) = flds"
    using ne clean by (simp add: Split_Join)
  have second: "case fromData (q0\<lparr>Q_ProtocolVersion := v\<rparr>) (Join flds TAB) of
          Inl err \<Rightarrow> False
        | Inr q \<Rightarrow> Query_String q = Inr (''Q'' @ TAB # Join flds TAB @ [NL])"
  proof -
    consider (one) "v = 1" | (two) "v = 2" | (three) "v = 3" using v by blast
    then show ?thesis
    proof cases
      case one
      with len have "length flds = 5" by simp
      then obtain a b c d e where "flds = [a, b, c, d, e]"
        by (auto simp: length_Suc_conv eval_nat_numeral)
      with one sp show ?thesis
        by (simp add: fromData_def Query_String_def)
    next
      case two
      with len have "length flds = 6" by simp
      then obtain a b c d e f where "flds = [a, b, c, d, e, f]"
        by (auto simp: length_Suc_conv eval_nat_numeral)
      with two sp show ?thesis
        by (simp add: fromData_def Query_String_def)
    next
      case three
      with len have "length flds = 7" by simp
      then obtain a b c d e f g where "flds = [a, b, c, d, e, f, g]"
        by (auto simp: length_Suc_conv eval_nat_numeral)
      with three sp show ?thesis
        by (simp add: fromData_def Query_String_def)
    qed
  qed
  from first second show ?thesis by simp
qed

theorem C7_witness:
  "int (length [''example.com'', ''IN'', ''ANY'', ''-1'', ''127.0.0.2'', ''127.0.0.1'', ''127.0.0.3'']) = 3 + 4
   \<and> TAB \<notin> set (concat [''example.com'', ''IN'', ''ANY'', ''-1'', ''127.0.0.2'', ''127.0.0.1'', ''127.0.0.3''])
   \<and> NL \<notin> set (concat [''example.com'', ''IN'', ''ANY'', ''-1'', ''127.0.0.2'', ''127.0.0.1'', ''127.0.0.3''])
   \<and> fromData (zero_Query\<lparr>Q_ProtocolVersion := 3\<rparr>)
        (Join [''example.com'', ''IN'', ''ANY'', ''-1'', ''127.0.0.2'', ''127.0.0.1'', ''127.0.0.3''] TAB)
      = Inr (FakeQuery 3)
   \<and> Query_String (FakeQuery 3) =
        Inr (''Q'' @ TAB #
             Join [''example.com'', ''IN'', ''ANY'', ''-1'', ''127.0.0.2'', ''127.0.0.1'', ''127.0.0.3''] TAB
             @ [NL])"
  using C7_roundtrip [of 3 "[''example.com'', ''IN'', ''ANY'', ''-1'', ''127.0.0.2'', ''127.0.0.1'', ''127.0.0.3'']" zero_Query]
  by (simp add: fromData_def zero_Query_def FakeQuery_def Query_String_def)

subsection \<open>Encoding a response\<close>

text \<open>
  C8.  A response encodes to the same text at versions 1 and 2: \<open>DATA\<close>, then
  name, class, type, ttl, id and content, joined by tabs and ended by one line feed.
  At version 3 the scope bits and the auth field come first, eight fields in all.  At
  any version below 1 or above 3 encoding fails with "Unknown protocol version in
  response".
\<close>

theorem C8_Response_String:
  "Response_String (r\<lparr>R_ProtocolVersion := 1\<rparr>) = Response_String (r\<lparr>R_ProtocolVersion := 2\<rparr>)
   \<and> Response_String (r\<lparr>R_ProtocolVersion := 1\<rparr>) =
       Inr (''DATA'' @ TAB #
            Join [R_QName r, R_QClass r, R_QType r, TTL r, R_Id r, Content r] TAB @ [NL])
   \<and> Response_String (r\<lparr>R_ProtocolVersion := 3\<rparr>) =
       Inr (''DATA'' @ TAB #
            Join [ScopeBits r, Auth r, R_QName r, R_QClass r, R_QType r, TTL r, R_Id r, Content r] TAB
            @ [NL])
   \<and> (v < 1 \<or> v > 3 \<longrightarrow>
        Response_String (r\<lparr>R_ProtocolVersion := v\<rparr>) =
        Inl (errors_New ''Unknown protocol version in response''))"
  by (auto simp: Response_String_def)

theorem C8_witness:
  "Response_String (FakeResponse 3\<lparr>R_ProtocolVersion := 1\<rparr>) =
     Inr (''DATA'' @ TAB # ''example.com'' @ TAB # ''IN'' @ TAB # ''ANY'' @ TAB # ''3600''
          @ TAB # ''-1'' @ TAB # ''foo'' @ [NL])
   \<and> Response_String (FakeResponse 3\<lparr>R_ProtocolVersion := 2\<rparr>) =
     Inr (''DATA'' @ TAB # ''example.com'' @ TAB # ''IN'' @ TAB # ''ANY'' @ TAB # ''3600''
          @ TAB # ''-1'' @ TAB # ''foo'' @ [NL])
   \<and> Response_String (FakeResponse 3\<lparr>R_ProtocolVersion := 3\<rparr>) =
     Inr (''DATA'' @ TAB # ''24'' @ TAB # ''auth'' @ TAB # ''example.com'' @ TAB # ''IN''
          @ TAB # ''ANY'' @ TAB # ''3600'' @ TAB # ''-1'' @ TAB # ''foo'' @ [NL])
   \<and> (4::int) > 3
   \<and> Response_String (FakeResponse 3\<lparr>R_ProtocolVersion := 4\<rparr>) =
     Inl (errors_New ''Unknown protocol version in response'')"
  using C8_Response_String [of "FakeResponse 3" 4]
  by (simp add: FakeResponse_def Response_String_def)

section \<open>Properties of the dispatch router\<close>

text \<open>The definitions that evaluate a pass on a concrete router.\<close>

lemmas dsl_eval =
  Register_def NewWithTTL_def callbacks_of_def Lookup_def
  Lookup_tr_def runNode_def runNode_tr_def Let_def Reply_def ReplyExtra_def Itoa_def
  Itoa_nat.simps digit_char_def match_all_def match_name_def FakeQuery_def demo_regs_def
  failing_def guard_def Before_def match_dot_com_def demo_Context_def mixed_regs_def

subsection \<open>The recorded pass computes what \<open>Lookup\<close> computes\<close>

lemma runNode_tr_result: "fst (runNode_tr d c node) = runNode d c node"
  by (simp add: runNode_tr_def runNode_def Let_def split: option.splits prod.splits)

lemma Lookup_nodes_tr_result: "fst (Lookup_nodes_tr d qtype c ns) = Lookup_nodes d c ns"
proof (induction ns arbitrary: c)
  case Nil
  show ?case by simp
next
  case (Cons node ns)
  obtain c' tr where r: "runNode_tr d c node = (c', tr)" by (metis surj_pair)
  then have r': "runNode d c node = c'" using runNode_tr_result [of d c node] by simp
  show ?case
  proof (cases "C_Error c'")
    case None
    obtain res tr' where l: "Lookup_nodes_tr d qtype c' ns = (res, tr')" by (metis surj_pair)
    then have "Lookup_nodes d c' ns = res" using Cons.IH [of c'] by simp
    with r r' None l show ?thesis by simp
  next
    case (Some err)
    with r r' show ?thesis by simp
  qed
qed

lemma Lookup_qtypes_tr_result: "fst (Lookup_qtypes_tr d c ts) = Lookup_qtypes d c ts"
proof (induction ts arbitrary: c)
  case Nil
  show ?case by simp
next
  case (Cons t ts)
  obtain res tr where n: "Lookup_nodes_tr d t (c\<lparr>C_QType := t\<rparr>) (callbacks_of d t) = (res, tr)"
    by (metis surj_pair)
  then have n': "Lookup_nodes d (c\<lparr>C_QType := t\<rparr>) (callbacks_of d t) = res"
    using Lookup_nodes_tr_result [of d t "c\<lparr>C_QType := t\<rparr>" "callbacks_of d t"] by simp
  show ?case
  proof (cases res)
    case (Inl err)
    with n n' show ?thesis by simp
  next
    case (Inr c')
    obtain res' tr' where l: "Lookup_qtypes_tr d c' ts = (res', tr')" by (metis surj_pair)
    then have "Lookup_qtypes d c' ts = res'" using Cons.IH [of c'] by simp
    with n n' Inr l show ?thesis by simp
  qed
qed

lemma Lookup_tr_result: "fst (Lookup_tr d q) = Lookup d q"
proof -
  let ?c = "\<lparr>DefaultTTL = defaultTTL d, C_Query = q, C_QType = [], Matches = [],
               C_Error = None, Answers = []\<rparr>"
  let ?runOn = "if Q_QType q = ''ANY'' then qtypeSort d else [Q_QType q]"
  obtain res tr where l: "Lookup_qtypes_tr d ?c ?runOn = (res, tr)" by (metis surj_pair)
  then have "Lookup_qtypes d ?c ?runOn = res"
    using Lookup_qtypes_tr_result [of d ?c ?runOn] by simp
  with l show ?thesis
    by (cases res) (simp_all add: Lookup_tr_def Lookup_def Let_def)
qed

subsection \<open>Reading a record of calls\<close>

lemma accumulated_append: "accumulated a (tr1 @ tr2) = accumulated (accumulated a tr1) tr2"
  by (induction a tr1 rule: accumulated.induct) simp_all

lemma ev_attempts_append: "ev_attempts (tr1 @ tr2) = ev_attempts tr1 @ ev_attempts tr2"
  by (induction tr1 rule: ev_attempts.induct) simp_all

lemma ev_invoked_append: "ev_invoked (tr1 @ tr2) = ev_invoked tr1 @ ev_invoked tr2"
  by (induction tr1 rule: ev_invoked.induct) simp_all

lemma ev_before_inputs_append:
  "ev_before_inputs (tr1 @ tr2) = ev_before_inputs tr1 @ ev_before_inputs tr2"
  by (induction tr1 rule: ev_before_inputs.induct) simp_all

lemma ev_errors_append: "ev_errors (tr1 @ tr2) = ev_errors tr1 @ ev_errors tr2"
  by (induction tr1) (simp_all split: option.splits)

lemma set_ev_errors: "e \<in> set (ev_errors tr) \<longleftrightarrow> (\<exists>ev\<in>set tr. ev_error ev = Some e)"
  by (induction tr) (auto split: option.splits)

lemma chained_append:
  "chained k (tr1 @ tr2) \<longleftrightarrow> chained k tr1 \<and> chained (carried k tr1) tr2"
  by (induction k tr1 rule: chained.induct) auto

lemma carried_append: "carried k (tr1 @ tr2) = carried (carried k tr1) tr2"
  by (induction k tr1 rule: carried.induct) auto

lemma ev_tries_append: "ev_tries (tr1 @ tr2) = ev_tries tr1 @ ev_tries tr2"
  by (induction tr1 rule: ev_tries.induct) simp_all

lemma ev_errors_butlast:
  "ev_errors tr = [] \<Longrightarrow> ev_errors (butlast tr) = []"
  by (induction tr) (auto split: option.splits)

lemma ev_errors_butlast_append:
  assumes "ev_errors tr1 = []" and "ev_errors (butlast tr2) = []"
  shows "ev_errors (butlast (tr1 @ tr2)) = []"
  using assms by (simp add: butlast_append ev_errors_append ev_errors_butlast)

lemma ev_errors_butlast_EvNode:
  assumes "ev_errors (butlast tr) = []"
  shows "ev_errors (butlast (EvNode qtype node c # tr)) = []"
  using assms by simp

subsection \<open>One node\<close>

text \<open>What one call of \<open>runNode\<close> records, when it starts with the error flag unset.\<close>

lemma runNode_tr_errors:
  assumes "C_Error c = None" and "runNode_tr d c node = (c', tr)"
  shows "ev_errors tr = (case C_Error c' of None \<Rightarrow> [] | Some e \<Rightarrow> [e])"
    and "Answers c' = accumulated (Answers c) tr"
    and "list_all (\<lambda>cin. C_Error cin = None) (ev_before_inputs tr)"
  using assms
  by (auto simp: runNode_tr_def Let_def split: option.splits if_splits prod.splits)

lemma runNode_tr_calls:
  assumes "runNode_tr d c node = (c', tr)"
  shows "ev_attempts tr = []"
    and "ev_invoked tr = [] \<or> ev_invoked tr = [node]"
  using assms
  by (auto simp: runNode_tr_def Let_def split: option.splits if_splits prod.splits)

lemma runNode_tr_chained:
  assumes "runNode_tr d c node = (c', tr)"
  shows "chained (carried_state c) tr" and "carried (carried_state c) tr = carried_state c'"
  using assms
  by (auto simp: runNode_tr_def Let_def carried_state_def split: option.splits if_splits prod.splits)

lemma runNode_tr_tries:
  assumes "runNode_tr d c node = (c', tr)"
  shows "ev_tries tr = []" and "ev_invoked tr = (if runs_handler d node c then [node] else [])"
  using assms
  by (auto simp: runNode_tr_def runs_handler_def Let_def split: option.splits if_splits prod.splits)

lemma runNode_tr_no_error:
  assumes "runNode_tr d c node = (c', tr)" and "C_Error c' = None"
  shows "runs_handler d node c \<longleftrightarrow> name_matches node (Q_QName (C_Query c))"
  using assms
  by (auto simp: runNode_tr_def runs_handler_def name_matches_def Let_def
        split: option.splits if_splits prod.splits)

lemma runNode_tr_keeps_query:
  assumes "runNode_tr d c node = (c', tr)"
    and "keeps_query (fn node)"
    and "case beforeCallback d of None \<Rightarrow> True | Some h \<Rightarrow> keeps_query h"
  shows "C_Query c' = C_Query c"
  using assms
  by (auto simp: runNode_tr_def keeps_query_def Let_def
        split: option.splits if_splits prod.splits)

lemma runNode_tr_stops:
  assumes "runNode_tr d c node = (c', tr)"
  shows "ev_errors (butlast tr) = []"
  using assms
  by (auto simp: runNode_tr_def Let_def split: option.splits if_splits prod.splits)

text \<open>
  C5.  When the pattern of a node matches the query name (sub-matches \<open>ms\<close>, the
  whole match first): the before-hook, if one is set, is called with the capture
  groups \<open>tl ms\<close>, whatever the context holds; the handler of the node is called,
  with the context the hook left, exactly when that context has no error; and when
  \<open>runNode\<close> returns the capture groups are those from before the node ran.  When
  the pattern does not match, no call is made and the context is unchanged.
\<close>

theorem C5_runNode:
  "(matcher node (Q_QName (C_Query c)) = Some ms \<and> ms \<noteq> [] \<longrightarrow>
      snd (runNode_tr d c node) =
        (case beforeCallback d of
           None \<Rightarrow> []
         | Some hook \<Rightarrow> [EvBefore (c\<lparr>Matches := tl ms\<rparr>) (hook (c\<lparr>Matches := tl ms\<rparr>))])
        @ (case C_Error (case beforeCallback d of
                           None \<Rightarrow> c\<lparr>Matches := tl ms\<rparr>
                         | Some hook \<Rightarrow> hook (c\<lparr>Matches := tl ms\<rparr>)) of
             None \<Rightarrow>
               [EvHandler node
                  (case beforeCallback d of
                     None \<Rightarrow> c\<lparr>Matches := tl ms\<rparr>
                   | Some hook \<Rightarrow> hook (c\<lparr>Matches := tl ms\<rparr>))
                  (fn node (case beforeCallback d of
                              None \<Rightarrow> c\<lparr>Matches := tl ms\<rparr>
                            | Some hook \<Rightarrow> hook (c\<lparr>Matches := tl ms\<rparr>)))]
           | Some err \<Rightarrow> [])
      \<and> Matches (runNode d c node) = Matches c)
   \<and> (matcher node (Q_QName (C_Query c)) = None \<or> matcher node (Q_QName (C_Query c)) = Some [] \<longrightarrow>
        snd (runNode_tr d c node) = [] \<and> runNode d c node = c)"
  by (auto simp: runNode_tr_def runNode_def Let_def split: option.splits prod.splits)

theorem C5_witness:
  "matcher \<lparr>matcher = match_dot_com, fn = Reply ''hello''\<rparr> (Q_QName (C_Query demo_Context))
     = Some [''example.com'', ''example'']
   \<and> map Matches (ev_before_inputs (snd (runNode_tr (Before guard (NewWithTTL 3600)) demo_Context
        \<lparr>matcher = match_dot_com, fn = Reply ''hello''\<rparr>))) = [[''example'']]
   \<and> ev_invoked (snd (runNode_tr (Before guard (NewWithTTL 3600)) demo_Context
        \<lparr>matcher = match_dot_com, fn = Reply ''hello''\<rparr>))
       = [\<lparr>matcher = match_dot_com, fn = Reply ''hello''\<rparr>]
   \<and> Matches (runNode (Before guard (NewWithTTL 3600)) demo_Context
        \<lparr>matcher = match_dot_com, fn = Reply ''hello''\<rparr>) = [''outer'']
   \<and> map Content (Answers (runNode (Before guard (NewWithTTL 3600)) demo_Context
        \<lparr>matcher = match_dot_com, fn = Reply ''hello''\<rparr>)) = [''hello'']
   \<and> ev_invoked (snd (runNode_tr (Before failing (NewWithTTL 3600)) demo_Context
        \<lparr>matcher = match_dot_com, fn = Reply ''hello''\<rparr>)) = []
   \<and> matcher \<lparr>matcher = match_name ''example.org'', fn = Reply ''hello''\<rparr>
        (Q_QName (C_Query demo_Context)) = None
   \<and> snd (runNode_tr (Before guard (NewWithTTL 3600)) demo_Context
        \<lparr>matcher = match_name ''example.org'', fn = Reply ''hello''\<rparr>) = []
   \<and> runNode (Before guard (NewWithTTL 3600)) demo_Context
        \<lparr>matcher = match_name ''example.org'', fn = Reply ''hello''\<rparr> = demo_Context"
  using
    C5_runNode [of "\<lparr>matcher = match_dot_com, fn = Reply ''hello''\<rparr>" demo_Context
      "[''example.com'', ''example'']" "Before guard (NewWithTTL 3600)"]
    C5_runNode [of "\<lparr>matcher = match_dot_com, fn = Reply ''hello''\<rparr>" demo_Context
      "[''example.com'', ''example'']" "Before failing (NewWithTTL 3600)"]
    C5_runNode [of "\<lparr>matcher = match_name ''example.org'', fn = Reply ''hello''\<rparr>" demo_Context
      "[]" "Before guard (NewWithTTL 3600)"]
  by (simp add: dsl_eval)

subsection \<open>The whole pass\<close>

lemma pass_ok_Inl:
  "pass_ok c (Inl e) tr \<longleftrightarrow>
     ev_errors tr = [e] \<and> list_all (\<lambda>cin. C_Error cin = None) (ev_before_inputs tr)"
  by (simp add: pass_ok_def)

lemma pass_ok_Inr:
  "pass_ok c (Inr c') tr \<longleftrightarrow>
     ev_errors tr = [] \<and> C_Error c' = None \<and> Answers c' = accumulated (Answers c) tr
     \<and> list_all (\<lambda>cin. C_Error cin = None) (ev_before_inputs tr)"
  by (simp add: pass_ok_def)

lemma pass_ok_step:
  assumes "ev_errors tr1 = []"
    and "list_all (\<lambda>cin. C_Error cin = None) (ev_before_inputs tr1)"
    and "Answers c1 = accumulated (Answers c) tr1"
    and "pass_ok c1 r tr2"
  shows "pass_ok c r (tr1 @ tr2)"
  using assms
  by (cases r)
     (simp_all add: pass_ok_Inl pass_ok_Inr ev_errors_append ev_before_inputs_append
        accumulated_append)

lemma pass_ok_EvNode: "pass_ok c r tr \<Longrightarrow> pass_ok c r (EvNode qtype node c0 # tr)"
  by (cases r) (simp_all add: pass_ok_Inl pass_ok_Inr)

lemma Lookup_nodes_tr_pass:
  "C_Error c = None \<Longrightarrow> Lookup_nodes_tr d qtype c ns = (r, tr) \<Longrightarrow> pass_ok c r tr"
proof (induction ns arbitrary: c r tr)
  case Nil
  then show ?case by (auto simp: pass_ok_Inr)
next
  case (Cons node ns)
  obtain c1 tr1 where n: "runNode_tr d c node = (c1, tr1)" by (metis surj_pair)
  note e = runNode_tr_errors [OF Cons.prems(1) n]
  show ?case
  proof (cases "C_Error c1")
    case (Some err)
    with Cons.prems(2) n have r: "r = Inl err" and tr: "tr = EvNode qtype node c # tr1"
      by auto
    have "pass_ok c (Inl err) tr1"
      using e(1,3) Some by (simp add: pass_ok_Inl)
    then show ?thesis unfolding r tr by (rule pass_ok_EvNode)
  next
    case None
    obtain r2 tr2 where l: "Lookup_nodes_tr d qtype c1 ns = (r2, tr2)" by (metis surj_pair)
    with Cons.prems(2) n None have r: "r = r2" and tr: "tr = EvNode qtype node c # tr1 @ tr2"
      by auto
    have ih: "pass_ok c1 r2 tr2" using Cons.IH [OF None l] .
    have quiet: "ev_errors tr1 = []"
      using e(1) None by simp
    have "pass_ok c r2 (tr1 @ tr2)"
      using quiet e(3) e(2) ih by (rule pass_ok_step)
    then show ?thesis unfolding r tr by (rule pass_ok_EvNode)
  qed
qed

lemma Lookup_qtypes_tr_pass:
  "C_Error c = None \<Longrightarrow> Lookup_qtypes_tr d c ts = (r, tr) \<Longrightarrow> pass_ok c r tr"
proof (induction ts arbitrary: c r tr)
  case Nil
  then show ?case by (auto simp: pass_ok_Inr)
next
  case (Cons t ts)
  obtain r1 tr1 where n: "Lookup_nodes_tr d t (c\<lparr>C_QType := t\<rparr>) (callbacks_of d t) = (r1, tr1)"
    by (metis surj_pair)
  have "C_Error (c\<lparr>C_QType := t\<rparr>) = None" using Cons.prems(1) by simp
  then have p1: "pass_ok (c\<lparr>C_QType := t\<rparr>) r1 tr1"
    using n by (rule Lookup_nodes_tr_pass)
  show ?case
  proof (cases r1)
    case (Inl err)
    with Cons.prems(2) n have "r = Inl err" and "tr = tr1" by auto
    with p1 Inl show ?thesis by (simp add: pass_ok_Inl)
  next
    case (Inr c1)
    obtain r2 tr2 where l: "Lookup_qtypes_tr d c1 ts = (r2, tr2)" by (metis surj_pair)
    with Cons.prems(2) n Inr have r: "r = r2" and tr: "tr = tr1 @ tr2" by auto
    have p1': "ev_errors tr1 = []" "C_Error c1 = None"
      "Answers c1 = accumulated (Answers c) tr1"
      "list_all (\<lambda>cin. C_Error cin = None) (ev_before_inputs tr1)"
      using p1 Inr by (simp_all add: pass_ok_Inr)
    have ih: "pass_ok c1 r2 tr2" using Cons.IH [OF p1'(2) l] .
    show ?thesis
      unfolding r tr using p1'(1) p1'(4) p1'(3) ih by (rule pass_ok_step)
  qed
qed

lemma Lookup_tr_pass:
  obtains r tr where
    "pass_ok \<lparr>DefaultTTL = defaultTTL d, C_Query = q, C_QType = [], Matches = [],
              C_Error = None, Answers = []\<rparr> r tr"
    and "Lookup_tr d q = ((case r of Inl err \<Rightarrow> ([], Some err) | Inr c' \<Rightarrow> (Answers c', None)), tr)"
proof -
  let ?c = "\<lparr>DefaultTTL = defaultTTL d, C_Query = q, C_QType = [], Matches = [],
               C_Error = None, Answers = []\<rparr>"
  let ?runOn = "if Q_QType q = ''ANY'' then qtypeSort d else [Q_QType q]"
  obtain r tr where l: "Lookup_qtypes_tr d ?c ?runOn = (r, tr)" by (metis surj_pair)
  have "C_Error ?c = None" by simp
  then have p: "pass_ok ?c r tr" using l by (rule Lookup_qtypes_tr_pass)
  have "Lookup_tr d q = ((case r of Inl err \<Rightarrow> ([], Some err) | Inr c' \<Rightarrow> (Answers c', None)), tr)"
    using l by (cases r) (simp_all add: Lookup_tr_def Let_def)
  with p show ?thesis using that by blast
qed

lemma Lookup_nodes_tr_chained:
  "Lookup_nodes_tr d qtype c ns = (r, tr) \<Longrightarrow>
     chained (carried_state c) tr
     \<and> (case r of Inl err \<Rightarrow> True | Inr c' \<Rightarrow> carried (carried_state c) tr = carried_state c')"
proof (induction ns arbitrary: c r tr)
  case Nil
  then show ?case by auto
next
  case (Cons node ns)
  obtain c1 tr1 where n: "runNode_tr d c node = (c1, tr1)" by (cases "runNode_tr d c node")
  note k = runNode_tr_chained [OF n]
  show ?case
  proof (cases "C_Error c1")
    case (Some err)
    with Cons.prems n have r: "r = Inl err" and tr: "tr = EvNode qtype node c # tr1"
      by auto
    show ?thesis unfolding r tr using k(1) by simp
  next
    case None
    obtain r2 tr2 where l: "Lookup_nodes_tr d qtype c1 ns = (r2, tr2)"
      by (cases "Lookup_nodes_tr d qtype c1 ns")
    with Cons.prems n None have r: "r = r2" and tr: "tr = EvNode qtype node c # tr1 @ tr2"
      by auto
    note ih = Cons.IH [OF l]
    have ch: "chained (carried_state c) (tr1 @ tr2)"
      using k ih by (simp add: chained_append)
    have ca: "carried (carried_state c) (tr1 @ tr2) = carried (carried_state c1) tr2"
      using k(2) by (simp add: carried_append)
    show ?thesis
      unfolding r tr using ch ca ih by (cases r2) simp_all
  qed
qed

lemma Lookup_qtypes_tr_chained:
  "Lookup_qtypes_tr d c ts = (r, tr) \<Longrightarrow>
     chained (carried_state c) tr
     \<and> (case r of Inl err \<Rightarrow> True | Inr c' \<Rightarrow> carried (carried_state c) tr = carried_state c')"
proof (induction ts arbitrary: c r tr)
  case Nil
  then show ?case by auto
next
  case (Cons t ts)
  obtain r1 tr1 where n: "Lookup_nodes_tr d t (c\<lparr>C_QType := t\<rparr>) (callbacks_of d t) = (r1, tr1)"
    by (cases "Lookup_nodes_tr d t (c\<lparr>C_QType := t\<rparr>) (callbacks_of d t)")
  have same: "carried_state (c\<lparr>C_QType := t\<rparr>) = carried_state c"
    by (simp add: carried_state_def)
  note k = Lookup_nodes_tr_chained [OF n, unfolded same]
  show ?case
  proof (cases r1)
    case (Inl err)
    with Cons.prems n have r: "r = Inl err" and tr: "tr = tr1" by auto
    show ?thesis unfolding r tr using k by simp
  next
    case (Inr c1)
    obtain r2 tr2 where l: "Lookup_qtypes_tr d c1 ts = (r2, tr2)"
      by (cases "Lookup_qtypes_tr d c1 ts")
    with Cons.prems n Inr have r: "r = r2" and tr: "tr = tr1 @ tr2" by auto
    note ih = Cons.IH [OF l]
    have c1: "carried (carried_state c) tr1 = carried_state c1" using k Inr by simp
    show ?thesis
      unfolding r tr using k ih c1
      by (cases r2) (simp_all add: chained_append carried_append)
  qed
qed

lemma Lookup_tr_chained: "chained (defaultTTL d, q, None, []) (snd (Lookup_tr d q))"
proof -
  let ?c = "\<lparr>DefaultTTL = defaultTTL d, C_Query = q, C_QType = [], Matches = [],
               C_Error = None, Answers = []\<rparr>"
  let ?runOn = "if Q_QType q = ''ANY'' then qtypeSort d else [Q_QType q]"
  obtain r tr where l: "Lookup_qtypes_tr d ?c ?runOn = (r, tr)"
    by (cases "Lookup_qtypes_tr d ?c ?runOn")
  have tr: "snd (Lookup_tr d q) = tr"
    using l by (cases r) (simp_all add: Lookup_tr_def Let_def)
  have k: "carried_state ?c = (defaultTTL d, q, None, [])"
    by (simp add: carried_state_def)
  show ?thesis
    unfolding tr using Lookup_qtypes_tr_chained [OF l, unfolded k] by simp
qed

lemma Lookup_nodes_tr_stops:
  "C_Error c = None \<Longrightarrow> Lookup_nodes_tr d qtype c ns = (r, tr) \<Longrightarrow>
     ev_errors (butlast tr) = []"
proof (induction ns arbitrary: c r tr)
  case Nil
  then show ?case by auto
next
  case (Cons node ns)
  obtain c1 tr1 where n: "runNode_tr d c node = (c1, tr1)" by (cases "runNode_tr d c node")
  note e = runNode_tr_errors(1) [OF Cons.prems(1) n]
  note s = runNode_tr_stops [OF n]
  show ?case
  proof (cases "C_Error c1")
    case (Some err)
    with Cons.prems(2) n have tr: "tr = EvNode qtype node c # tr1" by auto
    show ?thesis unfolding tr using s by (rule ev_errors_butlast_EvNode)
  next
    case None
    obtain r2 tr2 where l: "Lookup_nodes_tr d qtype c1 ns = (r2, tr2)"
      by (cases "Lookup_nodes_tr d qtype c1 ns")
    with Cons.prems(2) n None have tr: "tr = EvNode qtype node c # tr1 @ tr2" by auto
    have quiet: "ev_errors tr1 = []" using e None by simp
    have ih: "ev_errors (butlast tr2) = []" using Cons.IH [OF None l] .
    have "ev_errors (butlast (tr1 @ tr2)) = []"
      using quiet ih by (rule ev_errors_butlast_append)
    then show ?thesis unfolding tr by (rule ev_errors_butlast_EvNode)
  qed
qed

lemma Lookup_qtypes_tr_stops:
  "C_Error c = None \<Longrightarrow> Lookup_qtypes_tr d c ts = (r, tr) \<Longrightarrow>
     ev_errors (butlast tr) = []"
proof (induction ts arbitrary: c r tr)
  case Nil
  then show ?case by auto
next
  case (Cons t ts)
  obtain r1 tr1 where n: "Lookup_nodes_tr d t (c\<lparr>C_QType := t\<rparr>) (callbacks_of d t) = (r1, tr1)"
    by (cases "Lookup_nodes_tr d t (c\<lparr>C_QType := t\<rparr>) (callbacks_of d t)")
  have c0: "C_Error (c\<lparr>C_QType := t\<rparr>) = None" using Cons.prems(1) by simp
  have s: "ev_errors (butlast tr1) = []" using c0 n by (rule Lookup_nodes_tr_stops)
  have p1: "pass_ok (c\<lparr>C_QType := t\<rparr>) r1 tr1" using c0 n by (rule Lookup_nodes_tr_pass)
  show ?case
  proof (cases r1)
    case (Inl err)
    with Cons.prems(2) n have tr: "tr = tr1" by auto
    show ?thesis unfolding tr by (rule s)
  next
    case (Inr c1)
    obtain r2 tr2 where l: "Lookup_qtypes_tr d c1 ts = (r2, tr2)"
      by (cases "Lookup_qtypes_tr d c1 ts")
    with Cons.prems(2) n Inr have tr: "tr = tr1 @ tr2" by auto
    have quiet: "ev_errors tr1 = []" and c1: "C_Error c1 = None"
      using p1 Inr by (simp_all add: pass_ok_Inr)
    have ih: "ev_errors (butlast tr2) = []" using Cons.IH [OF c1 l] .
    show ?thesis unfolding tr using quiet ih by (rule ev_errors_butlast_append)
  qed
qed

lemma Lookup_nodes_tr_attempts:
  "Lookup_nodes_tr d qtype c ns = (r, tr) \<Longrightarrow>
     prefix (ev_attempts tr) (map (Pair qtype) ns)
     \<and> (case r of Inl err \<Rightarrow> True | Inr c' \<Rightarrow> ev_attempts tr = map (Pair qtype) ns)
     \<and> subseq (ev_invoked tr) (map snd (ev_attempts tr))"
proof (induction ns arbitrary: c r tr)
  case Nil
  then show ?case by auto
next
  case (Cons node ns)
  obtain c1 tr1 where n: "runNode_tr d c node = (c1, tr1)" by (metis surj_pair)
  note k = runNode_tr_calls [OF n]
  show ?case
  proof (cases "C_Error c1")
    case (Some err)
    with Cons.prems n have r: "r = Inl err" and tr: "tr = EvNode qtype node c # tr1"
      by auto
    have a: "ev_attempts tr = [(qtype, node)]"
      unfolding tr using k(1) by simp
    have i: "ev_invoked tr = ev_invoked tr1"
      unfolding tr by simp
    have "subseq (ev_invoked tr1) [node]"
      using k(2) by auto
    then show ?thesis
      unfolding a i r by simp
  next
    case None
    obtain r2 tr2 where l: "Lookup_nodes_tr d qtype c1 ns = (r2, tr2)" by (metis surj_pair)
    with Cons.prems n None have r: "r = r2" and tr: "tr = EvNode qtype node c # tr1 @ tr2"
      by auto
    note ih = Cons.IH [OF l]
    have a: "ev_attempts tr = (qtype, node) # ev_attempts tr2"
      unfolding tr using k(1) by (simp add: ev_attempts_append)
    have i: "ev_invoked tr = ev_invoked tr1 @ ev_invoked tr2"
      unfolding tr by (simp add: ev_invoked_append)
    have s: "subseq (ev_invoked tr1 @ ev_invoked tr2) (node # map snd (ev_attempts tr2))"
      using k(2) ih by auto
    show ?thesis
      unfolding a i r using ih s by (cases r2) simp_all
  qed
qed

lemma Lookup_qtypes_tr_attempts:
  "Lookup_qtypes_tr d c ts = (r, tr) \<Longrightarrow>
     prefix (ev_attempts tr) (concat (map (\<lambda>t. map (Pair t) (callbacks_of d t)) ts))
     \<and> (case r of Inl err \<Rightarrow> True
         | Inr c' \<Rightarrow> ev_attempts tr = concat (map (\<lambda>t. map (Pair t) (callbacks_of d t)) ts))
     \<and> subseq (ev_invoked tr) (map snd (ev_attempts tr))"
proof (induction ts arbitrary: c r tr)
  case Nil
  then show ?case by auto
next
  case (Cons t ts)
  obtain r1 tr1 where n: "Lookup_nodes_tr d t (c\<lparr>C_QType := t\<rparr>) (callbacks_of d t) = (r1, tr1)"
    by (metis surj_pair)
  note k = Lookup_nodes_tr_attempts [OF n]
  show ?case
  proof (cases r1)
    case (Inl err)
    with Cons.prems n have r: "r = Inl err" and tr: "tr = tr1" by auto
    show ?thesis unfolding r tr using k by simp
  next
    case (Inr c1)
    obtain r2 tr2 where l: "Lookup_qtypes_tr d c1 ts = (r2, tr2)" by (metis surj_pair)
    with Cons.prems n Inr have r: "r = r2" and tr: "tr = tr1 @ tr2" by auto
    note ih = Cons.IH [OF l]
    have a1: "ev_attempts tr1 = map (Pair t) (callbacks_of d t)"
      using k Inr by simp
    have s: "subseq (ev_invoked tr1 @ ev_invoked tr2)
               (map snd (ev_attempts tr1) @ map snd (ev_attempts tr2))"
      using k ih by (simp add: list_emb_append_mono)
    show ?thesis
      unfolding r tr using ih s a1
      by (cases r2) (simp_all add: ev_attempts_append ev_invoked_append)
  qed
qed

text \<open>
  C2.  If any call of a handler or of the before-hook in a pass leaves the error
  flag set, \<open>Lookup\<close> returns that error and no replies, whatever had been
  accumulated; if no call does, \<open>Lookup\<close> returns the replies accumulated by the
  last call (none when no call was made) and no error.  Along the pass every node,
  every call of the hook and every call of a handler receives the default TTL, the
  query, the error flag and the replies exactly as the call before it left them, the
  first from a context with no error and no replies; no call but the last one leaves
  an error, so the pass stops at the first error; and a pass in which no call leaves
  an error goes through every candidate node of every candidate type.
\<close>

theorem C2_Lookup_error_only:
  "(\<forall>ev\<in>set (snd (Lookup_tr d q)). \<forall>e. ev_error ev = Some e \<longrightarrow> Lookup d q = ([], Some e))
   \<and> ((\<forall>ev\<in>set (snd (Lookup_tr d q)). ev_error ev = None) \<longrightarrow>
        Lookup d q = (accumulated [] (snd (Lookup_tr d q)), None))
   \<and> chained (defaultTTL d, q, None, []) (snd (Lookup_tr d q))
   \<and> ev_errors (butlast (snd (Lookup_tr d q))) = []
   \<and> ((\<forall>ev\<in>set (snd (Lookup_tr d q)). ev_error ev = None) \<longrightarrow>
        ev_attempts (snd (Lookup_tr d q)) = candidates d q)"
proof -
  let ?c = "\<lparr>DefaultTTL = defaultTTL d, C_Query = q, C_QType = [], Matches = [],
               C_Error = None, Answers = []\<rparr>"
  let ?runOn = "if Q_QType q = ''ANY'' then qtypeSort d else [Q_QType q]"
  obtain r tr where l: "Lookup_qtypes_tr d ?c ?runOn = (r, tr)"
    by (cases "Lookup_qtypes_tr d ?c ?runOn")
  have c0: "C_Error ?c = None" by simp
  have p: "pass_ok ?c r tr" using c0 l by (rule Lookup_qtypes_tr_pass)
  have stops: "ev_errors (butlast tr) = []" using c0 l by (rule Lookup_qtypes_tr_stops)
  have L: "Lookup_tr d q = ((case r of Inl err \<Rightarrow> ([], Some err) | Inr c' \<Rightarrow> (Answers c', None)), tr)"
    using l by (cases r) (simp_all add: Lookup_tr_def Let_def)
  have res: "Lookup d q = (case r of Inl err \<Rightarrow> ([], Some err) | Inr c' \<Rightarrow> (Answers c', None))"
    using L Lookup_tr_result [of d q] by simp
  have tr: "snd (Lookup_tr d q) = tr" using L by simp
  have ch: "chained (defaultTTL d, q, None, []) tr"
    using Lookup_tr_chained [of d q] unfolding tr .
  note k = Lookup_qtypes_tr_attempts [OF l, folded candidates_def]
  show ?thesis
  proof (cases r)
    case (Inl err)
    with p have errs: "ev_errors tr = [err]" by (simp add: pass_ok_Inl)
    have one: "\<forall>ev\<in>set tr. \<forall>e. ev_error ev = Some e \<longrightarrow> e = err"
    proof (intro ballI allI impI)
      fix ev e assume "ev \<in> set tr" "ev_error ev = Some e"
      then have "e \<in> set (ev_errors tr)" using set_ev_errors by blast
      then show "e = err" using errs by simp
    qed
    have "err \<in> set (ev_errors tr)" using errs by simp
    then have some: "\<exists>ev\<in>set tr. ev_error ev = Some err"
      using set_ev_errors by blast
    from res Inl have R: "Lookup d q = ([], Some err)" by simp
    show ?thesis unfolding tr
    proof (intro conjI ballI allI impI)
      fix ev e assume "ev \<in> set tr" "ev_error ev = Some e"
      then have "e = err" using one [rule_format, of ev e] by simp
      with R show "Lookup d q = ([], Some e)" by simp
    next
      assume a: "\<forall>ev\<in>set tr. ev_error ev = None"
      from some obtain ev where "ev \<in> set tr" "ev_error ev = Some err" by blast
      with a have False by simp
      then show "Lookup d q = (accumulated [] tr, None)" ..
    next
      show "chained (defaultTTL d, q, None, []) tr" by (rule ch)
    next
      show "ev_errors (butlast tr) = []" by (rule stops)
    next
      assume a: "\<forall>ev\<in>set tr. ev_error ev = None"
      from some obtain ev where "ev \<in> set tr" "ev_error ev = Some err" by blast
      with a have False by simp
      then show "ev_attempts tr = candidates d q" ..
    qed
  next
    case (Inr c')
    with p have errs: "ev_errors tr = []" and ans: "Answers c' = accumulated [] tr"
      by (simp_all add: pass_ok_Inr)
    have none: "\<forall>ev\<in>set tr. \<forall>e. ev_error ev \<noteq> Some e"
    proof (intro ballI allI notI)
      fix ev e assume "ev \<in> set tr" "ev_error ev = Some e"
      then have "e \<in> set (ev_errors tr)" using set_ev_errors by blast
      then show False using errs by simp
    qed
    from res Inr ans have R: "Lookup d q = (accumulated [] tr, None)" by simp
    have all: "ev_attempts tr = candidates d q" using k unfolding Inr by simp
    show ?thesis unfolding tr
    proof (intro conjI ballI allI impI)
      fix ev e assume "ev \<in> set tr" "ev_error ev = Some e"
      then have False using none [rule_format, of ev e] by simp
      then show "Lookup d q = ([], Some e)" ..
    next
      show "Lookup d q = (accumulated [] tr, None)" by (rule R)
    next
      show "chained (defaultTTL d, q, None, []) tr" by (rule ch)
    next
      show "ev_errors (butlast tr) = []" by (rule stops)
    next
      show "ev_attempts tr = candidates d q" by (rule all)
    qed
  qed
qed

theorem C2_witness:
  "Lookup (registers ((''SSHFP'', match_all, failing) # demo_regs) (NewWithTTL 3600)) (FakeQuery 3)
     = ([], Some (errors_New ''No SSHFP on unsigned zones''))
   \<and> Lookup (registers demo_regs (NewWithTTL 3600)) (FakeQuery 3)
     = (accumulated [] (snd (Lookup_tr (registers demo_regs (NewWithTTL 3600)) (FakeQuery 3))), None)
   \<and> map Content (accumulated [] (snd (Lookup_tr (registers demo_regs (NewWithTTL 3600)) (FakeQuery 3))))
     = [''10 mail.example.com'', ''1.2.3.4'', ''5.6.7.8'', ''hello'']
   \<and> chained (3600, FakeQuery 3, None, [])
        (snd (Lookup_tr (registers demo_regs (NewWithTTL 3600)) (FakeQuery 3)))
   \<and> map (\<lambda>(n, c). map Content (Answers c))
        (ev_tries (snd (Lookup_tr (registers demo_regs (NewWithTTL 3600)) (FakeQuery 3))))
     = [[], [''10 mail.example.com''], [''10 mail.example.com'', ''1.2.3.4''],
        [''10 mail.example.com'', ''1.2.3.4'', ''5.6.7.8'']]
   \<and> map fst (ev_attempts (snd (Lookup_tr (registers demo_regs (NewWithTTL 3600)) (FakeQuery 3))))
     = [''MX'', ''A'', ''A'', ''TXT'']
   \<and> map fst (ev_attempts (snd (Lookup_tr
        (registers ((''SSHFP'', match_all, failing) # demo_regs) (NewWithTTL 3600)) (FakeQuery 3))))
     = [''SSHFP'']"
proof -
  let ?bad = "registers ((''SSHFP'', match_all, failing) # demo_regs) (NewWithTTL 3600)"
  let ?good = "registers demo_regs (NewWithTTL 3600)"
  let ?e = "errors_New ''No SSHFP on unsigned zones''"
  have "ev_errors (snd (Lookup_tr ?bad (FakeQuery 3))) = [?e]"
    by (simp add: dsl_eval)
  then have "?e \<in> set (ev_errors (snd (Lookup_tr ?bad (FakeQuery 3))))" by simp
  then obtain ev where ev: "ev \<in> set (snd (Lookup_tr ?bad (FakeQuery 3)))" "ev_error ev = Some ?e"
    unfolding set_ev_errors by blast
  have bad: "Lookup ?bad (FakeQuery 3) = ([], Some ?e)"
    using C2_Lookup_error_only [of ?bad "FakeQuery 3", THEN conjunct1, rule_format, OF ev] .
  have "ev_errors (snd (Lookup_tr ?good (FakeQuery 3))) = []"
    by (simp add: dsl_eval)
  then have quiet: "\<forall>ev\<in>set (snd (Lookup_tr ?good (FakeQuery 3))). ev_error ev = None"
    using set_ev_errors [of _ "snd (Lookup_tr ?good (FakeQuery 3))"]
    by (metis empty_iff empty_set option.exhaust)
  note G = C2_Lookup_error_only [of ?good "FakeQuery 3"]
  have good: "Lookup ?good (FakeQuery 3)
      = (accumulated [] (snd (Lookup_tr ?good (FakeQuery 3))), None)"
    using G [THEN conjunct2, THEN conjunct1] quiet by simp
  have ttl: "defaultTTL ?good = 3600" by (simp add: dsl_eval)
  have ch: "chained (3600, FakeQuery 3, None, []) (snd (Lookup_tr ?good (FakeQuery 3)))"
    using G [THEN conjunct2, THEN conjunct2, THEN conjunct1] unfolding ttl .
  have att: "ev_attempts (snd (Lookup_tr ?good (FakeQuery 3))) = candidates ?good (FakeQuery 3)"
    using G [THEN conjunct2, THEN conjunct2, THEN conjunct2, THEN conjunct2] quiet by simp
  have cand: "map fst (candidates ?good (FakeQuery 3)) = [''MX'', ''A'', ''A'', ''TXT'']"
    by (simp add: candidates_def dsl_eval)
  have "map Content (accumulated [] (snd (Lookup_tr ?good (FakeQuery 3))))
      = [''10 mail.example.com'', ''1.2.3.4'', ''5.6.7.8'', ''hello'']"
    by (simp add: dsl_eval)
  moreover have "map (\<lambda>(n, c). map Content (Answers c)) (ev_tries (snd (Lookup_tr ?good (FakeQuery 3))))
     = [[], [''10 mail.example.com''], [''10 mail.example.com'', ''1.2.3.4''],
        [''10 mail.example.com'', ''1.2.3.4'', ''5.6.7.8'']]"
    by (simp add: dsl_eval)
  moreover have "map fst (ev_attempts (snd (Lookup_tr ?bad (FakeQuery 3)))) = [''SSHFP'']"
    by (simp add: dsl_eval)
  ultimately show ?thesis
    using bad good ch att cand by simp
qed

text \<open>
  C10.  In every pass, each time the before-hook is called the context it is given
  has no error set.
\<close>

theorem C10_before_sees_no_error:
  "\<forall>c\<in>set (ev_before_inputs (snd (Lookup_tr d q))). C_Error c = None"
proof -
  obtain r tr where p: "pass_ok \<lparr>DefaultTTL = defaultTTL d, C_Query = q, C_QType = [],
        Matches = [], C_Error = None, Answers = []\<rparr> r tr"
    and l: "Lookup_tr d q = ((case r of Inl err \<Rightarrow> ([], Some err) | Inr c' \<Rightarrow> (Answers c', None)), tr)"
    by (rule Lookup_tr_pass)
  have tr: "snd (Lookup_tr d q) = tr" using l by simp
  have "list_all (\<lambda>cin. C_Error cin = None) (ev_before_inputs tr)"
    using p by (cases r) (simp_all add: pass_ok_Inl pass_ok_Inr)
  then show ?thesis unfolding tr by (simp add: list_all_iff)
qed

theorem C10_witness:
  "map C_Error (ev_before_inputs (snd (Lookup_tr (Before guard (registers demo_regs (NewWithTTL 3600)))
       (FakeQuery 3)))) = [None, None, None]
   \<and> Lookup (Before guard (registers demo_regs (NewWithTTL 3600))) (FakeQuery 3)
       = ([], Some (errors_New ''enough''))"
  using C10_before_sees_no_error [of "Before guard (registers demo_regs (NewWithTTL 3600))" "FakeQuery 3"]
  by (simp add: dsl_eval)

subsection \<open>Registration order\<close>

lemma alreadyIn_iff: "alreadyIn t ts \<longleftrightarrow> t \<in> set ts"
  by (induction ts) auto

lemma Register_qtypeSort:
  "qtypeSort (Register t re f d) = (if t \<in> set (qtypeSort d) then qtypeSort d else qtypeSort d @ [t])"
  by (simp add: Register_def Let_def alreadyIn_iff)

lemma Register_callbacks_of:
  "callbacks_of (Register t re f d) u =
     (if u = t then callbacks_of d t @ [\<lparr>matcher = re, fn = f\<rparr>] else callbacks_of d u)"
  by (simp add: Register_def Let_def callbacks_of_def)

lemma registers_callbacks_of:
  "callbacks_of (registers regs d) u = callbacks_of d u @ nodes_for regs u"
  by (induction regs d rule: registers.induct) (simp_all add: Register_callbacks_of)

lemma registers_qtypeSort:
  "qtypeSort (registers regs d) =
     qtypeSort d @ filter (\<lambda>t. t \<notin> set (qtypeSort d)) (first_seen (map fst regs))"
proof (induction regs d rule: registers.induct)
  case (1 d)
  show ?case by simp
next
  case (2 qtype re f regs d)
  let ?X = "first_seen (map fst regs)"
  let ?qs = "qtypeSort d"
  have ih: "qtypeSort (registers regs (Register qtype re f d)) =
      qtypeSort (Register qtype re f d)
      @ filter (\<lambda>t. t \<notin> set (qtypeSort (Register qtype re f d))) ?X"
    by (rule 2)
  have goal: "filter (\<lambda>t. t \<notin> set ?qs) (first_seen (map fst ((qtype, re, f) # regs)))
      = (if qtype \<in> set ?qs then [] else [qtype]) @ filter (\<lambda>x. x \<noteq> qtype \<and> x \<notin> set ?qs) ?X"
    by simp
  show ?case
  proof (cases "qtype \<in> set ?qs")
    case True
    have "filter (\<lambda>x. x \<noteq> qtype \<and> x \<notin> set ?qs) ?X = filter (\<lambda>t. t \<notin> set ?qs) ?X"
      by (rule filter_cong) (use True in auto)
    with True ih goal show ?thesis
      by (simp add: Register_qtypeSort)
  next
    case False
    have "filter (\<lambda>t. t \<notin> set (?qs @ [qtype])) ?X = filter (\<lambda>x. x \<noteq> qtype \<and> x \<notin> set ?qs) ?X"
      by (rule filter_cong) auto
    with False ih goal show ?thesis
      by (simp add: Register_qtypeSort)
  qed
qed

lemma NewWithTTL_empty:
  "callbacks_of (NewWithTTL ttl) u = []" "qtypeSort (NewWithTTL ttl) = []"
  by (simp_all add: NewWithTTL_def callbacks_of_def)

lemma NewWithTTL_registers:
  "callbacks_of (registers regs (NewWithTTL ttl)) u = nodes_for regs u"
  "qtypeSort (registers regs (NewWithTTL ttl)) = first_seen (map fst regs)"
  by (simp_all add: registers_callbacks_of registers_qtypeSort NewWithTTL_empty)

lemma runNode_tr_invoked:
  assumes "always_matches node" and "runNode_tr d c node = (c', tr)" and "C_Error c' = None"
  shows "ev_invoked tr = [node]"
proof -
  have "case matcher node (Q_QName (C_Query c)) of None \<Rightarrow> False | Some ms \<Rightarrow> ms \<noteq> []"
    using assms(1) by (simp add: always_matches_def)
  then obtain ms where m: "matcher node (Q_QName (C_Query c)) = Some ms" and ne: "ms \<noteq> []"
    by (cases "matcher node (Q_QName (C_Query c))") auto
  show ?thesis
    using assms(2,3) m ne
    by (auto simp: runNode_tr_def Let_def split: option.splits if_splits prod.splits)
qed

lemma Lookup_nodes_tr_invoked:
  "\<forall>n\<in>set ns. always_matches n \<Longrightarrow> Lookup_nodes_tr d qtype c ns = (Inr c', tr) \<Longrightarrow>
     ev_invoked tr = ns"
proof (induction ns arbitrary: c tr)
  case Nil
  then show ?case by auto
next
  case (Cons node ns)
  obtain c1 tr1 where n: "runNode_tr d c node = (c1, tr1)" by (metis surj_pair)
  show ?case
  proof (cases "C_Error c1")
    case (Some err)
    with Cons.prems(2) n show ?thesis by simp
  next
    case None
    obtain r2 tr2 where l: "Lookup_nodes_tr d qtype c1 ns = (r2, tr2)" by (metis surj_pair)
    with Cons.prems(2) n None have r: "r2 = Inr c'" and tr: "tr = EvNode qtype node c # tr1 @ tr2"
      by auto
    have "always_matches node" using Cons.prems(1) by simp
    then have i1: "ev_invoked tr1 = [node]" using n None by (rule runNode_tr_invoked)
    have "\<forall>n\<in>set ns. always_matches n" using Cons.prems(1) by simp
    then have i2: "ev_invoked tr2 = ns" using l [unfolded r] by (rule Cons.IH)
    show ?thesis unfolding tr by (simp add: ev_invoked_append i1 i2)
  qed
qed

lemma Lookup_qtypes_tr_invoked:
  "\<forall>t\<in>set ts. \<forall>n\<in>set (callbacks_of d t). always_matches n \<Longrightarrow>
   Lookup_qtypes_tr d c ts = (Inr c', tr) \<Longrightarrow>
     ev_invoked tr = concat (map (callbacks_of d) ts)"
proof (induction ts arbitrary: c tr)
  case Nil
  then show ?case by auto
next
  case (Cons t ts)
  obtain r1 tr1 where n: "Lookup_nodes_tr d t (c\<lparr>C_QType := t\<rparr>) (callbacks_of d t) = (r1, tr1)"
    by (metis surj_pair)
  show ?case
  proof (cases r1)
    case (Inl err)
    with Cons.prems(2) n show ?thesis by simp
  next
    case (Inr c1)
    obtain r2 tr2 where l: "Lookup_qtypes_tr d c1 ts = (r2, tr2)" by (metis surj_pair)
    with Cons.prems(2) n Inr have r: "r2 = Inr c'" and tr: "tr = tr1 @ tr2" by auto
    have "\<forall>n\<in>set (callbacks_of d t). always_matches n" using Cons.prems(1) by simp
    then have i1: "ev_invoked tr1 = callbacks_of d t"
      using n [unfolded Inr] by (rule Lookup_nodes_tr_invoked)
    have "\<forall>t\<in>set ts. \<forall>n\<in>set (callbacks_of d t). always_matches n" using Cons.prems(1) by simp
    then have i2: "ev_invoked tr2 = concat (map (callbacks_of d) ts)"
      using l [unfolded r] by (rule Cons.IH)
    show ?thesis unfolding tr by (simp add: ev_invoked_append i1 i2)
  qed
qed

lemma Lookup_nodes_tr_tries:
  "Lookup_nodes_tr d qtype c ns = (r, tr) \<Longrightarrow>
     map fst (ev_tries tr) = map snd (ev_attempts tr)
     \<and> ev_invoked tr = map fst (filter (\<lambda>(n, c). runs_handler d n c) (ev_tries tr))"
proof (induction ns arbitrary: c r tr)
  case Nil
  then show ?case by auto
next
  case (Cons node ns)
  obtain c1 tr1 where n: "runNode_tr d c node = (c1, tr1)" by (cases "runNode_tr d c node")
  note k = runNode_tr_tries [OF n]
  note a = runNode_tr_calls(1) [OF n]
  show ?case
  proof (cases "C_Error c1")
    case (Some err)
    with Cons.prems n have tr: "tr = EvNode qtype node c # tr1" by auto
    show ?thesis unfolding tr using k a by simp
  next
    case None
    obtain r2 tr2 where l: "Lookup_nodes_tr d qtype c1 ns = (r2, tr2)"
      by (cases "Lookup_nodes_tr d qtype c1 ns")
    with Cons.prems n None have tr: "tr = EvNode qtype node c # tr1 @ tr2" by auto
    note ih = Cons.IH [OF l]
    show ?thesis
      unfolding tr using k a ih
      by (simp add: ev_tries_append ev_attempts_append ev_invoked_append)
  qed
qed

lemma Lookup_qtypes_tr_tries:
  "Lookup_qtypes_tr d c ts = (r, tr) \<Longrightarrow>
     map fst (ev_tries tr) = map snd (ev_attempts tr)
     \<and> ev_invoked tr = map fst (filter (\<lambda>(n, c). runs_handler d n c) (ev_tries tr))"
proof (induction ts arbitrary: c r tr)
  case Nil
  then show ?case by auto
next
  case (Cons t ts)
  obtain r1 tr1 where n: "Lookup_nodes_tr d t (c\<lparr>C_QType := t\<rparr>) (callbacks_of d t) = (r1, tr1)"
    by (cases "Lookup_nodes_tr d t (c\<lparr>C_QType := t\<rparr>) (callbacks_of d t)")
  note k = Lookup_nodes_tr_tries [OF n]
  show ?case
  proof (cases r1)
    case (Inl err)
    with Cons.prems n have tr: "tr = tr1" by auto
    show ?thesis unfolding tr using k by simp
  next
    case (Inr c1)
    obtain r2 tr2 where l: "Lookup_qtypes_tr d c1 ts = (r2, tr2)"
      by (cases "Lookup_qtypes_tr d c1 ts")
    with Cons.prems n Inr have tr: "tr = tr1 @ tr2" by auto
    note ih = Cons.IH [OF l]
    show ?thesis
      unfolding tr using k ih
      by (simp add: ev_tries_append ev_attempts_append ev_invoked_append)
  qed
qed

lemma Lookup_nodes_tr_matched:
  "Lookup_nodes_tr d qtype c ns = (Inr c', tr) \<Longrightarrow>
     filter (\<lambda>(n, c). runs_handler d n c) (ev_tries tr)
       = filter (\<lambda>(n, c). name_matches n (Q_QName (C_Query c))) (ev_tries tr)"
proof (induction ns arbitrary: c tr)
  case Nil
  then show ?case by auto
next
  case (Cons node ns)
  obtain c1 tr1 where n: "runNode_tr d c node = (c1, tr1)" by (cases "runNode_tr d c node")
  show ?case
  proof (cases "C_Error c1")
    case (Some err)
    with Cons.prems n show ?thesis by simp
  next
    case None
    obtain r2 tr2 where l: "Lookup_nodes_tr d qtype c1 ns = (r2, tr2)"
      by (cases "Lookup_nodes_tr d qtype c1 ns")
    with Cons.prems n None have r: "r2 = Inr c'" and tr: "tr = EvNode qtype node c # tr1 @ tr2"
      by auto
    note ih = Cons.IH [OF l [unfolded r]]
    note m = runNode_tr_no_error [OF n None]
    note e = runNode_tr_tries(1) [OF n]
    show ?thesis
      unfolding tr using ih m e by (simp add: ev_tries_append)
  qed
qed

lemma Lookup_qtypes_tr_matched:
  "Lookup_qtypes_tr d c ts = (Inr c', tr) \<Longrightarrow>
     filter (\<lambda>(n, c). runs_handler d n c) (ev_tries tr)
       = filter (\<lambda>(n, c). name_matches n (Q_QName (C_Query c))) (ev_tries tr)"
proof (induction ts arbitrary: c tr)
  case Nil
  then show ?case by auto
next
  case (Cons t ts)
  obtain r1 tr1 where n: "Lookup_nodes_tr d t (c\<lparr>C_QType := t\<rparr>) (callbacks_of d t) = (r1, tr1)"
    by (cases "Lookup_nodes_tr d t (c\<lparr>C_QType := t\<rparr>) (callbacks_of d t)")
  show ?case
  proof (cases r1)
    case (Inl err)
    with Cons.prems n show ?thesis by simp
  next
    case (Inr c1)
    obtain r2 tr2 where l: "Lookup_qtypes_tr d c1 ts = (r2, tr2)"
      by (cases "Lookup_qtypes_tr d c1 ts")
    with Cons.prems n Inr have r: "r2 = Inr c'" and tr: "tr = tr1 @ tr2" by auto
    note ih = Cons.IH [OF l [unfolded r]]
    note k = Lookup_nodes_tr_matched [OF n [unfolded Inr]]
    show ?thesis
      unfolding tr using ih k by (simp add: ev_tries_append)
  qed
qed

lemma Lookup_nodes_tr_same_query:
  "Lookup_nodes_tr d qtype c ns = (r, tr) \<Longrightarrow>
   \<forall>n\<in>set ns. keeps_query (fn n) \<Longrightarrow>
   (case beforeCallback d of None \<Rightarrow> True | Some h \<Rightarrow> keeps_query h) \<Longrightarrow>
     list_all (\<lambda>(n, c0). C_Query c0 = C_Query c) (ev_tries tr)
     \<and> (case r of Inl err \<Rightarrow> True | Inr c' \<Rightarrow> C_Query c' = C_Query c)"
proof (induction ns arbitrary: c r tr)
  case Nil
  then show ?case by auto
next
  case (Cons node ns)
  obtain c1 tr1 where n: "runNode_tr d c node = (c1, tr1)" by (cases "runNode_tr d c node")
  have kn: "keeps_query (fn node)" using Cons.prems(2) by simp
  have q1: "C_Query c1 = C_Query c"
    using n kn Cons.prems(3) by (rule runNode_tr_keeps_query)
  note e = runNode_tr_tries(1) [OF n]
  show ?case
  proof (cases "C_Error c1")
    case (Some err)
    with Cons.prems(1) n have r: "r = Inl err" and tr: "tr = EvNode qtype node c # tr1" by auto
    show ?thesis unfolding r tr using e by simp
  next
    case None
    obtain r2 tr2 where l: "Lookup_nodes_tr d qtype c1 ns = (r2, tr2)"
      by (cases "Lookup_nodes_tr d qtype c1 ns")
    with Cons.prems(1) n None have r: "r = r2" and tr: "tr = EvNode qtype node c # tr1 @ tr2"
      by auto
    have rest: "\<forall>n\<in>set ns. keeps_query (fn n)" using Cons.prems(2) by simp
    note ih = Cons.IH [OF l rest Cons.prems(3), unfolded q1]
    show ?thesis
      unfolding r tr using ih e by (simp add: ev_tries_append)
  qed
qed

lemma Lookup_qtypes_tr_same_query:
  "Lookup_qtypes_tr d c ts = (r, tr) \<Longrightarrow>
   \<forall>n\<in>set (concat (map (callbacks_of d) ts)). keeps_query (fn n) \<Longrightarrow>
   (case beforeCallback d of None \<Rightarrow> True | Some h \<Rightarrow> keeps_query h) \<Longrightarrow>
     list_all (\<lambda>(n, c0). C_Query c0 = C_Query c) (ev_tries tr)
     \<and> (case r of Inl err \<Rightarrow> True | Inr c' \<Rightarrow> C_Query c' = C_Query c)"
proof (induction ts arbitrary: c r tr)
  case Nil
  then show ?case by auto
next
  case (Cons t ts)
  obtain r1 tr1 where n: "Lookup_nodes_tr d t (c\<lparr>C_QType := t\<rparr>) (callbacks_of d t) = (r1, tr1)"
    by (cases "Lookup_nodes_tr d t (c\<lparr>C_QType := t\<rparr>) (callbacks_of d t)")
  have grp: "\<forall>n\<in>set (callbacks_of d t). keeps_query (fn n)" using Cons.prems(2) by simp
  have same: "C_Query (c\<lparr>C_QType := t\<rparr>) = C_Query c" by simp
  note k = Lookup_nodes_tr_same_query [OF n grp Cons.prems(3), unfolded same]
  show ?case
  proof (cases r1)
    case (Inl err)
    with Cons.prems(1) n have r: "r = Inl err" and tr: "tr = tr1" by auto
    show ?thesis unfolding r tr using k by simp
  next
    case (Inr c1)
    obtain r2 tr2 where l: "Lookup_qtypes_tr d c1 ts = (r2, tr2)"
      by (cases "Lookup_qtypes_tr d c1 ts")
    with Cons.prems(1) n Inr have r: "r = r2" and tr: "tr = tr1 @ tr2" by auto
    have q1: "C_Query c1 = C_Query c" using k Inr by simp
    have rest: "\<forall>n\<in>set (concat (map (callbacks_of d) ts)). keeps_query (fn n)"
      using Cons.prems(2) by simp
    note ih = Cons.IH [OF l rest Cons.prems(3), unfolded q1]
    show ?thesis
      unfolding r tr using ih k by (simp add: ev_tries_append)
  qed
qed

lemma filter_by_query:
  assumes "list_all (\<lambda>(n, c). C_Query c = q) xs"
  shows "map fst (filter (\<lambda>(n, c). name_matches n (Q_QName (C_Query c))) xs)
       = filter (\<lambda>n. name_matches n (Q_QName q)) (map fst xs)"
  using assms by (induction xs) auto

text \<open>
  C4.  Take the router built from a fresh one by the calls \<open>regs\<close> of
  \<open>Register\<close>, with any before-hook or none.  The candidate nodes of a query are,
  for a type other than \<open>ANY\<close>, the nodes registered for that type in registration
  order, and for \<open>ANY\<close> the groups of all types in the order each type was first
  registered, each group in registration order.  \<open>Lookup\<close> passes to \<open>runNode\<close>
  a prefix of the candidates, in this order, and all of them when it returns no
  error; the handlers it calls are among the nodes it passed, in the same order; and
  when it returns no error and every candidate's pattern matches every name, the
  handlers called are exactly the candidates' handlers, in this order.  For any
  patterns, the handlers called are, in order, exactly those of the nodes passed to
  \<open>runNode\<close> whose pattern matches the query name held by the context at that
  moment and for which the before-hook leaves no error; when \<open>Lookup\<close> returns no
  error they are exactly those whose pattern matches that name; and when moreover
  neither the hook nor any candidate's handler changes the query, the handlers called
  are exactly the candidates whose pattern matches the name of the query, in the
  candidates' order.
\<close>

theorem C4_dispatch_order:
  fixes regs ttl hook q
  defines "d \<equiv> (registers regs (NewWithTTL ttl))\<lparr>beforeCallback := hook\<rparr>"
    and "expected \<equiv>
      (if Q_QType q = ''ANY''
       then concat (map (\<lambda>t. map (Pair t) (nodes_for regs t)) (first_seen (map fst regs)))
       else map (Pair (Q_QType q)) (nodes_for regs (Q_QType q)))"
  shows "prefix (ev_attempts (snd (Lookup_tr d q))) expected
     \<and> (snd (Lookup d q) = None \<longrightarrow> ev_attempts (snd (Lookup_tr d q)) = expected)
     \<and> subseq (ev_invoked (snd (Lookup_tr d q))) (map snd (ev_attempts (snd (Lookup_tr d q))))
     \<and> (snd (Lookup d q) = None \<and> (\<forall>n\<in>set (map snd expected). always_matches n) \<longrightarrow>
          ev_invoked (snd (Lookup_tr d q)) = map snd expected)
     \<and> map fst (ev_tries (snd (Lookup_tr d q))) = map snd (ev_attempts (snd (Lookup_tr d q)))
     \<and> ev_invoked (snd (Lookup_tr d q))
         = map fst (filter (\<lambda>(n, c). runs_handler d n c) (ev_tries (snd (Lookup_tr d q))))
     \<and> (snd (Lookup d q) = None \<longrightarrow>
          ev_invoked (snd (Lookup_tr d q))
            = map fst (filter (\<lambda>(n, c). name_matches n (Q_QName (C_Query c)))
                         (ev_tries (snd (Lookup_tr d q)))))
     \<and> (snd (Lookup d q) = None \<and> (\<forall>n\<in>set (map snd expected). keeps_query (fn n))
          \<and> (case hook of None \<Rightarrow> True | Some h \<Rightarrow> keeps_query h) \<longrightarrow>
          ev_invoked (snd (Lookup_tr d q))
            = filter (\<lambda>n. name_matches n (Q_QName q)) (map snd expected))"
proof -
  let ?c = "\<lparr>DefaultTTL = defaultTTL d, C_Query = q, C_QType = [], Matches = [],
               C_Error = None, Answers = []\<rparr>"
  let ?runOn = "if Q_QType q = ''ANY'' then qtypeSort d else [Q_QType q]"
  have cb: "\<And>u. callbacks_of d u = nodes_for regs u"
    unfolding d_def using NewWithTTL_registers(1) [of regs ttl] by (simp add: callbacks_of_def)
  have qs: "qtypeSort d = first_seen (map fst regs)"
    unfolding d_def using NewWithTTL_registers(2) [of regs ttl] by simp
  have hk: "beforeCallback d = hook" unfolding d_def by simp
  have ex: "expected = concat (map (\<lambda>t. map (Pair t) (callbacks_of d t)) ?runOn)"
    unfolding expected_def by (simp add: cb qs)
  have ex': "map snd expected = concat (map (callbacks_of d) ?runOn)"
    unfolding ex by (simp add: map_concat comp_def)
  obtain r tr where l: "Lookup_qtypes_tr d ?c ?runOn = (r, tr)"
    by (cases "Lookup_qtypes_tr d ?c ?runOn")
  have L: "Lookup_tr d q = ((case r of Inl err \<Rightarrow> ([], Some err) | Inr c' \<Rightarrow> (Answers c', None)), tr)"
    using l by (cases r) (simp_all add: Lookup_tr_def Let_def)
  have tr: "snd (Lookup_tr d q) = tr" using L by simp
  have res: "snd (Lookup d q) = (case r of Inl err \<Rightarrow> Some err | Inr c' \<Rightarrow> None)"
    using L Lookup_tr_result [of d q] by (cases r) (simp_all add: prod_eq_iff)
  note k = Lookup_qtypes_tr_attempts [OF l, folded ex]
  note t = Lookup_qtypes_tr_tries [OF l]
  have full: "ev_invoked tr = map snd expected"
    if "snd (Lookup d q) = None" and "\<forall>n\<in>set (map snd expected). always_matches n"
  proof -
    from that(1) res obtain c' where r: "r = Inr c'" by (cases r) simp_all
    have "\<forall>t\<in>set ?runOn. \<forall>n\<in>set (callbacks_of d t). always_matches n"
      using that(2) unfolding ex' by auto
    then show ?thesis
      unfolding ex' using l [unfolded r] by (rule Lookup_qtypes_tr_invoked)
  qed
  have eq: "ev_attempts tr = expected" if "snd (Lookup d q) = None"
  proof -
    from that res obtain c' where r: "r = Inr c'" by (cases r) simp_all
    show ?thesis using k unfolding r by simp
  qed
  have matched: "ev_invoked tr
      = map fst (filter (\<lambda>(n, c). name_matches n (Q_QName (C_Query c))) (ev_tries tr))"
    if "snd (Lookup d q) = None"
  proof -
    from that res obtain c' where r: "r = Inr c'" by (cases r) simp_all
    have "filter (\<lambda>(n, c). runs_handler d n c) (ev_tries tr)
       = filter (\<lambda>(n, c). name_matches n (Q_QName (C_Query c))) (ev_tries tr)"
      using l [unfolded r] by (rule Lookup_qtypes_tr_matched)
    with t show ?thesis by simp
  qed
  have by_name: "ev_invoked tr = filter (\<lambda>n. name_matches n (Q_QName q)) (map snd expected)"
    if none: "snd (Lookup d q) = None"
      and keep: "\<forall>n\<in>set (map snd expected). keeps_query (fn n)"
      and hook: "case hook of None \<Rightarrow> True | Some h \<Rightarrow> keeps_query h"
  proof -
    have keep': "\<forall>n\<in>set (concat (map (callbacks_of d) ?runOn)). keeps_query (fn n)"
      using keep unfolding ex' .
    have hook': "case beforeCallback d of None \<Rightarrow> True | Some h \<Rightarrow> keeps_query h"
      unfolding hk by (rule hook)
    have c0: "C_Query ?c = q" by simp
    have same: "list_all (\<lambda>(n, c0). C_Query c0 = q) (ev_tries tr)"
      using Lookup_qtypes_tr_same_query [OF l keep' hook', unfolded c0] by simp
    have "ev_invoked tr = filter (\<lambda>n. name_matches n (Q_QName q)) (map fst (ev_tries tr))"
      unfolding matched [OF none] using same by (rule filter_by_query)
    also have "map fst (ev_tries tr) = map snd expected"
      using t eq [OF none] by simp
    finally show ?thesis .
  qed
  show ?thesis
    unfolding tr
  proof (intro conjI impI)
    show "prefix (ev_attempts tr) expected" using k by simp
  next
    assume "snd (Lookup d q) = None"
    then show "ev_attempts tr = expected" by (rule eq)
  next
    show "subseq (ev_invoked tr) (map snd (ev_attempts tr))" using k by simp
  next
    assume "snd (Lookup d q) = None \<and> (\<forall>n\<in>set (map snd expected). always_matches n)"
    then show "ev_invoked tr = map snd expected" using full by simp
  next
    show "map fst (ev_tries tr) = map snd (ev_attempts tr)" using t by simp
  next
    show "ev_invoked tr = map fst (filter (\<lambda>(n, c). runs_handler d n c) (ev_tries tr))"
      using t by simp
  next
    assume "snd (Lookup d q) = None"
    then show "ev_invoked tr
      = map fst (filter (\<lambda>(n, c). name_matches n (Q_QName (C_Query c))) (ev_tries tr))"
      by (rule matched)
  next
    assume a: "snd (Lookup d q) = None \<and> (\<forall>n\<in>set (map snd expected). keeps_query (fn n))
          \<and> (case hook of None \<Rightarrow> True | Some h \<Rightarrow> keeps_query h)"
    show "ev_invoked tr = filter (\<lambda>n. name_matches n (Q_QName q)) (map snd expected)"
      using a by_name by simp
  qed
qed

theorem C4_witness:
  "snd (Lookup ((registers demo_regs (NewWithTTL 3600))\<lparr>beforeCallback := None\<rparr>) (FakeQuery 3)) = None
   \<and> ev_attempts (snd (Lookup_tr ((registers demo_regs (NewWithTTL 3600))\<lparr>beforeCallback := None\<rparr>)
        (FakeQuery 3)))
      = concat (map (\<lambda>t. map (Pair t) (nodes_for demo_regs t)) [''MX'', ''A'', ''TXT''])
   \<and> ev_invoked (snd (Lookup_tr ((registers demo_regs (NewWithTTL 3600))\<lparr>beforeCallback := None\<rparr>)
        (FakeQuery 3)))
      = concat (map (nodes_for demo_regs) [''MX'', ''A'', ''TXT''])
   \<and> map Content (fst (Lookup ((registers demo_regs (NewWithTTL 3600))\<lparr>beforeCallback := None\<rparr>)
        (FakeQuery 3))) = [''10 mail.example.com'', ''1.2.3.4'', ''5.6.7.8'', ''hello'']
   \<and> ev_attempts (snd (Lookup_tr ((registers demo_regs (NewWithTTL 3600))\<lparr>beforeCallback := None\<rparr>)
        (FakeQuery 3\<lparr>Q_QType := ''A''\<rparr>)))
      = map (Pair ''A'') (nodes_for demo_regs ''A'')
   \<and> map Content (fst (Lookup ((registers demo_regs (NewWithTTL 3600))\<lparr>beforeCallback := None\<rparr>)
        (FakeQuery 3\<lparr>Q_QType := ''A''\<rparr>))) = [''1.2.3.4'', ''5.6.7.8'']
   \<and> snd (Lookup ((registers mixed_regs (NewWithTTL 3600))\<lparr>beforeCallback := None\<rparr>)
        (FakeQuery 3\<lparr>Q_QType := ''A''\<rparr>)) = None
   \<and> ev_invoked (snd (Lookup_tr ((registers mixed_regs (NewWithTTL 3600))\<lparr>beforeCallback := None\<rparr>)
        (FakeQuery 3\<lparr>Q_QType := ''A''\<rparr>)))
      = [\<lparr>matcher = match_name ''example.com'', fn = Reply ''1.2.3.4''\<rparr>,
         \<lparr>matcher = match_dot_com, fn = Reply ''5.6.7.8''\<rparr>]
   \<and> map Content (fst (Lookup ((registers mixed_regs (NewWithTTL 3600))\<lparr>beforeCallback := None\<rparr>)
        (FakeQuery 3\<lparr>Q_QType := ''A''\<rparr>))) = [''1.2.3.4'', ''5.6.7.8'']"
proof -
  let ?d = "(registers demo_regs (NewWithTTL 3600))\<lparr>beforeCallback := None\<rparr>"
  let ?m = "(registers mixed_regs (NewWithTTL 3600))\<lparr>beforeCallback := None\<rparr>"
  let ?qa = "FakeQuery 3\<lparr>Q_QType := ''A''\<rparr>"
  define E where "E =
    (if Q_QType (FakeQuery 3) = ''ANY''
     then concat (map (\<lambda>t. map (Pair t) (nodes_for demo_regs t)) (first_seen (map fst demo_regs)))
     else map (Pair (Q_QType (FakeQuery 3))) (nodes_for demo_regs (Q_QType (FakeQuery 3))))"
  define F where "F =
    (if Q_QType ?qa = ''ANY''
     then concat (map (\<lambda>t. map (Pair t) (nodes_for demo_regs t)) (first_seen (map fst demo_regs)))
     else map (Pair (Q_QType ?qa)) (nodes_for demo_regs (Q_QType ?qa)))"
  define G where "G =
    (if Q_QType ?qa = ''ANY''
     then concat (map (\<lambda>t. map (Pair t) (nodes_for mixed_regs t)) (first_seen (map fst mixed_regs)))
     else map (Pair (Q_QType ?qa)) (nodes_for mixed_regs (Q_QType ?qa)))"
  have E: "E = concat (map (\<lambda>t. map (Pair t) (nodes_for demo_regs t)) [''MX'', ''A'', ''TXT''])"
    by (simp add: E_def FakeQuery_def demo_regs_def)
  have F: "F = map (Pair ''A'') (nodes_for demo_regs ''A'')"
    by (simp add: F_def FakeQuery_def)
  have G: "map snd G = [\<lparr>matcher = match_name ''example.com'', fn = Reply ''1.2.3.4''\<rparr>,
         \<lparr>matcher = match_name ''example.org'', fn = Reply ''9.9.9.9''\<rparr>,
         \<lparr>matcher = match_dot_com, fn = Reply ''5.6.7.8''\<rparr>]"
    by (simp add: G_def FakeQuery_def mixed_regs_def)
  have am: "\<forall>n\<in>set (map snd E). always_matches n"
    unfolding E by (simp add: demo_regs_def always_matches_def match_all_def)
  have kq: "\<forall>n\<in>set (map snd G). keeps_query (fn n)"
    unfolding G by (simp add: keeps_query_def Reply_def ReplyExtra_def)
  have any: "snd (Lookup ?d (FakeQuery 3)) = None"
    by (simp add: dsl_eval)
  have qa: "snd (Lookup ?d ?qa) = None"
    by (simp add: dsl_eval)
  have ma: "snd (Lookup ?m ?qa) = None"
    by (simp add: dsl_eval)
  note A = C4_dispatch_order [where regs = demo_regs and ttl = 3600 and hook = None
      and q = "FakeQuery 3", folded E_def]
  note B = C4_dispatch_order [where regs = demo_regs and ttl = 3600 and hook = None
      and q = ?qa, folded F_def]
  note M = C4_dispatch_order [where regs = mixed_regs and ttl = 3600 and hook = None
      and q = ?qa, folded G_def]
  have a1: "ev_attempts (snd (Lookup_tr ?d (FakeQuery 3))) = E"
    using A [THEN conjunct2, THEN conjunct1] any by simp
  have a2: "ev_invoked (snd (Lookup_tr ?d (FakeQuery 3))) = map snd E"
    using A [THEN conjunct2, THEN conjunct2, THEN conjunct2, THEN conjunct1] any am by simp
  have b1: "ev_attempts (snd (Lookup_tr ?d ?qa)) = F"
    using B [THEN conjunct2, THEN conjunct1] qa by simp
  have m1: "ev_invoked (snd (Lookup_tr ?m ?qa))
      = filter (\<lambda>n. name_matches n (Q_QName ?qa)) (map snd G)"
    using M [THEN conjunct2, THEN conjunct2, THEN conjunct2, THEN conjunct2, THEN conjunct2,
        THEN conjunct2, THEN conjunct2] ma kq by simp
  have m2: "filter (\<lambda>n. name_matches n (Q_QName ?qa)) (map snd G)
      = [\<lparr>matcher = match_name ''example.com'', fn = Reply ''1.2.3.4''\<rparr>,
         \<lparr>matcher = match_dot_com, fn = Reply ''5.6.7.8''\<rparr>]"
    unfolding G by (simp add: name_matches_def match_name_def match_dot_com_def FakeQuery_def)
  have e2: "map snd E = concat (map (nodes_for demo_regs) [''MX'', ''A'', ''TXT''])"
    unfolding E by (simp add: comp_def)
  have c1: "map Content (fst (Lookup ?d (FakeQuery 3)))
      = [''10 mail.example.com'', ''1.2.3.4'', ''5.6.7.8'', ''hello'']"
    by (simp add: dsl_eval)
  have c2: "map Content (fst (Lookup ?d ?qa)) = [''1.2.3.4'', ''5.6.7.8'']"
    by (simp add: dsl_eval)
  have c3: "map Content (fst (Lookup ?m ?qa)) = [''1.2.3.4'', ''5.6.7.8'']"
    by (simp add: dsl_eval)
  show ?thesis
    using any a1 [unfolded E] a2 [unfolded e2] c1 b1 [unfolded F] c2 ma m1 [unfolded m2] c3
    by simp
qed

section \<open>Properties of the protocol engine\<close>

subsection \<open>Reading and writing\<close>

lemma ReadString_first_line:
  "ReadString NL b =
     (case first_line (io_unread b) of
        None \<Rightarrow> ((io_unread b, Some (io_read_err b)), b\<lparr>io_unread := []\<rparr>)
      | Some (line, rest) \<Rightarrow> ((line, None), b\<lparr>io_unread := rest\<rparr>))"
proof (cases "dropWhile (\<lambda>c. c \<noteq> NL) (io_unread b)")
  case Nil
  show ?thesis unfolding ReadString_def first_line_def Nil by simp
next
  case (Cons d rest)
  show ?thesis unfolding ReadString_def first_line_def Cons by simp
qed

lemma first_line_append:
  "NL \<notin> set l \<Longrightarrow> first_line (l @ NL # rest) = Some (l @ [NL], rest)"
  by (simp add: first_line_def dropWhile_first_sep takeWhile_first_sep)

lemma WriteString_ok:
  "can_write (Suc k) b \<Longrightarrow>
     WriteString s b = (None, spend 1 (b\<lparr>io_buffered := io_buffered b @ s\<rparr>))
     \<and> can_write k (spend 1 (b\<lparr>io_buffered := io_buffered b @ s\<rparr>))"
  by (auto simp: WriteString_def can_write_def spend_def split: option.splits nat.splits)

lemma Flush_ok:
  "can_write (Suc k) b \<Longrightarrow>
     Flush b = (None, spend 1 (b\<lparr>io_flushed := io_flushed b @ io_buffered b, io_buffered := []\<rparr>))
     \<and> can_write k (spend 1 (b\<lparr>io_flushed := io_flushed b @ io_buffered b, io_buffered := []\<rparr>))"
  by (auto simp: Flush_def can_write_def spend_def split: option.splits nat.splits)

subsection \<open>The handshake\<close>

lemma hello_version_parts:
  "hello_version hello = Some v \<longleftrightarrow>
     (\<exists>vt. Split TAB (TrimRight hello [CR, NL]) = [''HELO'', vt] \<and> Atoi vt = (v, None)
            \<and> 1 \<le> v \<and> v \<le> 3)"
  by (auto simp: hello_version_def split: list.splits prod.splits option.splits if_splits)

lemma hello_version_None:
  "hello_version hello = None \<longleftrightarrow>
     (length (Split TAB (TrimRight hello [CR, NL])) \<noteq> 2
      \<or> Split TAB (TrimRight hello [CR, NL]) ! 0 \<noteq> ''HELO''
      \<or> fst (Atoi (Split TAB (TrimRight hello [CR, NL]) ! 1)) < 1
      \<or> fst (Atoi (Split TAB (TrimRight hello [CR, NL]) ! 1)) > 3
      \<or> snd (Atoi (Split TAB (TrimRight hello [CR, NL]) ! 1)) \<noteq> None)"
  by (auto simp: hello_version_def split: list.splits prod.splits option.splits if_splits)

lemma Negotiate_no_line:
  "first_line (io_unread b) = None \<Longrightarrow>
     Negotiate b = (Some (io_read_err b), b\<lparr>io_unread := []\<rparr>)"
  by (simp add: Negotiate_def ReadString_first_line)

lemma Negotiate_bad_hello:
  assumes "first_line (io_unread b) = Some (hello, rest)" and "hello_version hello = None"
  shows "Negotiate b = (Some (errors_New ''Bad hello from client''), b\<lparr>io_unread := rest\<rparr>)
       \<or> Negotiate b = (Some (errors_New ''Unknown protocol version requested''), b\<lparr>io_unread := rest\<rparr>)"
proof -
  let ?parts = "Split TAB (TrimRight hello [CR, NL])"
  from assms(2) consider
      (hello) "length ?parts \<noteq> 2 \<or> ?parts ! 0 \<noteq> ''HELO''"
    | (version) "\<not> (length ?parts \<noteq> 2 \<or> ?parts ! 0 \<noteq> ''HELO'')"
        "fst (Atoi (?parts ! 1)) < 1 \<or> fst (Atoi (?parts ! 1)) > 3 \<or> snd (Atoi (?parts ! 1)) \<noteq> None"
    unfolding hello_version_None by blast
  then show ?thesis
  proof cases
    case hello
    then show ?thesis
      using assms(1) by (simp add: Negotiate_def ReadString_first_line Let_def)
  next
    case version
    obtain n e where a: "Atoi (?parts ! 1) = (n, e)" by (metis surj_pair)
    with version(2) have "n < 1 \<or> n > 3 \<or> e \<noteq> None" by simp
    then show ?thesis
      using assms(1) version(1) a
      by (simp add: Negotiate_def ReadString_first_line Let_def)
  qed
qed

lemma Negotiate_parsed:
  assumes "first_line (io_unread b) = Some (hello, rest)" and "hello_version hello = Some v"
  shows "Negotiate b =
     (case WriteString (''OK'' @ TAB # Banner b @ [NL]) (b\<lparr>io_unread := rest\<rparr>) of
        (Some werr, b2) \<Rightarrow> (Some werr, b2)
      | (None, b2) \<Rightarrow>
          (case Flush b2 of
             (Some ferr, b3) \<Rightarrow> (Some ferr, b3)
           | (None, b3) \<Rightarrow> (None, b3\<lparr>B_ProtocolVersion := v\<rparr>)))"
proof -
  from assms(2) obtain vt where p: "Split TAB (TrimRight hello [CR, NL]) = [''HELO'', vt]"
    and a: "Atoi vt = (v, None)" and r: "1 \<le> v" "v \<le> 3"
    unfolding hello_version_parts by blast
  show ?thesis
    using assms(1) p a r
    by (simp add: Negotiate_def ReadString_first_line Let_def)
qed

lemma Negotiate_ok:
  assumes "first_line (io_unread b) = Some (hello, rest)" and "hello_version hello = Some v"
    and "can_write 2 b"
  shows "Negotiate b =
     (None, spend 2 (b\<lparr>io_unread := rest,
                        io_flushed := io_flushed b @ io_buffered b @ ''OK'' @ TAB # Banner b @ [NL],
                        io_buffered := [], B_ProtocolVersion := v\<rparr>))"
proof -
  let ?b1 = "b\<lparr>io_unread := rest\<rparr>"
  let ?ack = "''OK'' @ TAB # Banner b @ [NL]"
  have c: "can_write (Suc 1) ?b1" using assms(3) by (simp add: can_write_def numeral_2_eq_2)
  note w = WriteString_ok [OF c, of ?ack]
  let ?b2 = "spend 1 (?b1\<lparr>io_buffered := io_buffered ?b1 @ ?ack\<rparr>)"
  have c2: "can_write (Suc 0) ?b2" using w by simp
  note f = Flush_ok [OF c2]
  show ?thesis
    unfolding Negotiate_parsed [OF assms(1,2)]
    using w f by (cases "io_budget b") (simp_all add: spend_def)
qed

lemma Negotiate_broken:
  assumes "first_line (io_unread b) = Some (hello, rest)" and "hello_version hello = Some v"
    and "\<not> can_write 2 b"
  shows "fst (Negotiate b) = Some (io_write_err b)
     \<and> B_ProtocolVersion (snd (Negotiate b)) = B_ProtocolVersion b
     \<and> io_flushed (snd (Negotiate b)) = io_flushed b"
proof -
  from assms(3) consider "io_budget b = Some 0" | "io_budget b = Some 1"
    by (auto simp: can_write_def split: option.splits) (metis One_nat_def Suc_1 less_Suc0 less_Suc_eq not_less_eq_eq not_le)
  then show ?thesis
    unfolding Negotiate_parsed [OF assms(1,2)]
    by cases (simp_all add: WriteString_def Flush_def)
qed

lemma first_line_rest:
  "first_line s = Some (hello, rest) \<Longrightarrow> rest = tl (dropWhile (\<lambda>c. c \<noteq> NL) s)"
  by (cases "dropWhile (\<lambda>c. c \<noteq> NL) s") (simp_all add: first_line_def)

text \<open>
  C6.  \<open>Negotiate\<close> returns no error exactly when a first line can be read that
  asks for a version (stripped of trailing carriage returns and line feeds it splits
  on tabs into \<open>HELO\<close> and the text of an integer from 1 to 3) and the write and
  the flush of the acknowledgement succeed.  Then the engine has flushed \<open>OK\<close>, a
  tab, the banner and a line feed, and holds the version asked for.  Whenever
  \<open>Negotiate\<close> returns an error the stored version is the one from before, and
  when no first line asks for a version nothing was written or flushed.
\<close>

theorem C6_Negotiate:
  "(fst (Negotiate b) = None \<longleftrightarrow> negotiable b \<noteq> None \<and> can_write 2 b)
   \<and> (\<forall>v. negotiable b = Some v \<and> can_write 2 b \<longrightarrow>
         Negotiate b =
           (None, spend 2 (b\<lparr>io_unread := tl (dropWhile (\<lambda>c. c \<noteq> NL) (io_unread b)),
                              io_flushed := io_flushed b @ io_buffered b @ ''OK'' @ TAB # Banner b @ [NL],
                              io_buffered := [], B_ProtocolVersion := v\<rparr>)))
   \<and> (fst (Negotiate b) \<noteq> None \<longrightarrow> B_ProtocolVersion (snd (Negotiate b)) = B_ProtocolVersion b)
   \<and> (negotiable b = None \<longrightarrow>
         io_buffered (snd (Negotiate b)) = io_buffered b
         \<and> io_flushed (snd (Negotiate b)) = io_flushed b
         \<and> io_budget (snd (Negotiate b)) = io_budget b)"
proof (cases "first_line (io_unread b)")
  case None
  then have n: "negotiable b = None" by (simp add: negotiable_def)
  show ?thesis
    unfolding n Negotiate_no_line [OF None] by simp
next
  case (Some p)
  obtain hello rest where p: "p = (hello, rest)" by (metis surj_pair)
  note fl = Some [unfolded p]
  have n: "negotiable b = hello_version hello" using fl by (simp add: negotiable_def)
  have rest: "tl (dropWhile (\<lambda>c. c \<noteq> NL) (io_unread b)) = rest"
    using first_line_rest [OF fl] by simp
  show ?thesis
  proof (cases "hello_version hello")
    case None
    from Negotiate_bad_hello [OF fl None] show ?thesis
      unfolding n None by auto
  next
    case (Some v)
    show ?thesis
    proof (cases "can_write 2 b")
      case True
      show ?thesis
        unfolding n Some rest Negotiate_ok [OF fl Some True]
        using True by (simp add: spend_def)
    next
      case False
      from Negotiate_broken [OF fl Some False] show ?thesis
        unfolding n Some using False by simp
    qed
  qed
qed

theorem C6_witness:
  "negotiable (backend_New (''HELO'' @ TAB # ''3'' @ [NL]) io_EOF None io_EOF ''Testing Backend'') = Some 3
   \<and> Negotiate (backend_New (''HELO'' @ TAB # ''3'' @ [NL]) io_EOF None io_EOF ''Testing Backend'') =
       (None, (negotiated 3 [])\<lparr>io_flushed := ''OK'' @ TAB # ''Testing Backend'' @ [NL]\<rparr>)
   \<and> negotiable (backend_New (''HELO'' @ TAB # ''2'' @ [CR, NL]) io_EOF (Some 1) io_EOF ''Testing Backend'') = Some 2
   \<and> fst (Negotiate (backend_New (''HELO'' @ TAB # ''2'' @ [CR, NL]) io_EOF (Some 1) io_EOF ''Testing Backend''))
       = Some io_EOF
   \<and> B_ProtocolVersion (snd (Negotiate (backend_New (''HELO'' @ TAB # ''2'' @ [CR, NL]) io_EOF (Some 1) io_EOF ''Testing Backend''))) = 0
   \<and> negotiable (backend_New (''HELO'' @ TAB # ''4'' @ [NL]) io_EOF None io_EOF ''Testing Backend'') = None
   \<and> fst (Negotiate (backend_New (''HELO'' @ TAB # ''4'' @ [NL]) io_EOF None io_EOF ''Testing Backend''))
       = Some (errors_New ''Unknown protocol version requested'')
   \<and> io_buffered (snd (Negotiate (backend_New (''HELO'' @ TAB # ''4'' @ [NL]) io_EOF None io_EOF ''Testing Backend''))) = []
   \<and> io_flushed (snd (Negotiate (backend_New (''HELO'' @ TAB # ''4'' @ [NL]) io_EOF None io_EOF ''Testing Backend''))) = []"
  using
    C6_Negotiate [of "backend_New (''HELO'' @ TAB # ''3'' @ [NL]) io_EOF None io_EOF ''Testing Backend''"]
    C6_Negotiate [of "backend_New (''HELO'' @ TAB # ''2'' @ [CR, NL]) io_EOF (Some 1) io_EOF ''Testing Backend''"]
    C6_Negotiate [of "backend_New (''HELO'' @ TAB # ''4'' @ [NL]) io_EOF None io_EOF ''Testing Backend''"]
  by (simp add: negotiable_def first_line_def hello_version_def TrimRight_def Atoi_def digit_of_def
        backend_New_def negotiated_def can_write_def spend_def Negotiate_def ReadString_def
        WriteString_def Flush_def Let_def)

subsection \<open>One line of \<open>Run\<close>\<close>

lemma Run_iteration_line:
  assumes "NL \<notin> set l"
  shows "Run_iteration callback (b\<lparr>io_unread := l @ NL # rest\<rparr>) =
     (case Run_switch callback (b\<lparr>io_unread := rest\<rparr>) (SplitN2 TAB l) of
        Inl fault \<Rightarrow> Stop (Panicked fault) (b\<lparr>io_unread := rest\<rparr>)
      | Inr (responses, Some err) \<Rightarrow> Run_fail err (b\<lparr>io_unread := rest\<rparr>)
      | Inr (responses, None) \<Rightarrow> Run_respond responses (b\<lparr>io_unread := rest\<rparr>))"
  using assms
  by (simp add: Run_iteration_def ReadString_first_line first_line_append TrimRight_line)

lemma Run_iteration_end:
  assumes "NL \<notin> set (io_unread b)"
  shows "Run_iteration callback b =
     (if io_read_err b = io_EOF then Stop (Returned None) (b\<lparr>io_unread := []\<rparr>)
      else Stop (Returned (Some (io_read_err b))) (b\<lparr>io_unread := []\<rparr>))"
proof -
  have d: "dropWhile (\<lambda>c. c \<noteq> NL) (io_unread b) = []" using assms by auto
  have "first_line (io_unread b) = None" unfolding first_line_def d by simp
  then show ?thesis by (simp add: Run_iteration_def ReadString_first_line)
qed

lemma Run_fail_ok:
  assumes "can_write 2 b"
  shows "Run_fail err b = Continue (answered b (io_unread b) (log_fail (Replace_NL (Error_text err))))"
proof -
  let ?msg = "''LOG'' @ TAB # ''Error handling line: '' @ Replace_NL (Error_text err) @ NL # ''FAIL'' @ [NL]"
  have c: "can_write (Suc 1) b" using assms by (simp add: numeral_2_eq_2)
  note w = WriteString_ok [OF c, of ?msg]
  let ?b1 = "spend 1 (b\<lparr>io_buffered := io_buffered b @ ?msg\<rparr>)"
  have c1: "can_write (Suc 0) ?b1" using w by simp
  note f = Flush_ok [OF c1]
  show ?thesis
    unfolding Run_fail_def Let_def answered_def log_fail_def
    using w f by (cases "io_budget b") (simp_all add: spend_def)
qed

lemma Run_respond_none_ok:
  assumes "can_write 2 b"
  shows "Run_respond [] b = Continue (answered b (io_unread b) (''END'' @ [NL]))"
proof -
  have c: "can_write (Suc 1) b" using assms by (simp add: numeral_2_eq_2)
  note w = WriteString_ok [OF c, of "''END'' @ [NL]"]
  let ?b1 = "spend 1 (b\<lparr>io_buffered := io_buffered b @ ''END'' @ [NL]\<rparr>)"
  have c1: "can_write (Suc 0) ?b1" using w by simp
  note f = Flush_ok [OF c1]
  show ?thesis
    unfolding Run_respond_def answered_def
    using w f by (cases "io_budget b") (simp_all add: spend_def)
qed

lemma answered_unread: "answered (b\<lparr>io_unread := rest\<rparr>) rest out = answered b rest out"
  by (simp add: answered_def)

lemma SplitN2_command:
  "\<exists>args. SplitN2 sep s = takeWhile (\<lambda>c. c \<noteq> sep) s # args"
proof (cases "dropWhile (\<lambda>c. c \<noteq> sep) s")
  case Nil
  then have t: "takeWhile (\<lambda>c. c \<noteq> sep) s = s"
    using takeWhile_dropWhile_id [of "\<lambda>c. c \<noteq> sep" s] by simp
  show ?thesis unfolding SplitN2_def Nil t by simp
next
  case (Cons d rest)
  show ?thesis unfolding SplitN2_def Cons by simp
qed

lemma Run_continue: "Run_iteration callback b = Continue b1 \<Longrightarrow> Run callback b = Run callback b1"
  by (subst Run.simps) simp

lemma Run_stop: "Run_iteration callback b = Stop e b' \<Longrightarrow> Run callback b = (e, b')"
  by (subst Run.simps) simp

lemma Run_line_PING:
  assumes "NL \<notin> set l" and "can_write 2 b" and "takeWhile (\<lambda>c. c \<noteq> TAB) l = ''PING''"
  shows "Run_iteration callback (b\<lparr>io_unread := l @ NL # rest\<rparr>) =
     Continue (answered b rest (''END'' @ [NL]))"
proof -
  obtain args where "SplitN2 TAB l = ''PING'' # args"
    using SplitN2_command [of TAB l] assms(3) by auto
  then have sw: "Run_switch callback (b\<lparr>io_unread := rest\<rparr>) (SplitN2 TAB l) = Inr ([], None)"
    by (simp add: Run_switch_def)
  have c: "can_write 2 (b\<lparr>io_unread := rest\<rparr>)" using assms(2) by (simp add: can_write_def)
  show ?thesis
    unfolding Run_iteration_line [OF assms(1)] sw
    using Run_respond_none_ok [OF c] by (simp add: answered_unread)
qed

lemma Run_line_error:
  assumes "NL \<notin> set l" and "can_write 2 b"
    and "Run_switch callback (b\<lparr>io_unread := rest\<rparr>) (SplitN2 TAB l) = Inr (rs, Some err)"
  shows "Run_iteration callback (b\<lparr>io_unread := l @ NL # rest\<rparr>) =
     Continue (answered b rest (log_fail (Replace_NL (Error_text err))))"
proof -
  have c: "can_write 2 (b\<lparr>io_unread := rest\<rparr>)" using assms(2) by (simp add: can_write_def)
  show ?thesis
    unfolding Run_iteration_line [OF assms(1)] assms(3)
    using Run_fail_ok [OF c, of err] by (simp add: answered_unread)
qed

lemma Run_line_AXFR:
  assumes "NL \<notin> set l" and "can_write 2 b" and "takeWhile (\<lambda>c. c \<noteq> TAB) l = ''AXFR''"
  shows "Run_iteration callback (b\<lparr>io_unread := l @ NL # rest\<rparr>) =
     Continue (answered b rest (log_fail ''AXFR requests not supported''))"
proof -
  obtain args where "SplitN2 TAB l = ''AXFR'' # args"
    using SplitN2_command [of TAB l] assms(3) by auto
  then have sw: "Run_switch callback (b\<lparr>io_unread := rest\<rparr>) (SplitN2 TAB l)
      = Inr ([], Some (errors_New ''AXFR requests not supported''))"
    by (simp add: Run_switch_def handleAXFR_def)
  show ?thesis
    using Run_line_error [OF assms(1,2) sw] by (simp add: Replace_NL_def)
qed

lemma Run_line_unknown:
  assumes "NL \<notin> set l" and "can_write 2 b"
    and "takeWhile (\<lambda>c. c \<noteq> TAB) l \<notin> {''Q'', ''PING'', ''AXFR''}"
  shows "Run_iteration callback (b\<lparr>io_unread := l @ NL # rest\<rparr>) =
     Continue (answered b rest (log_fail ''Bad command''))"
proof -
  obtain args where "SplitN2 TAB l = takeWhile (\<lambda>c. c \<noteq> TAB) l # args"
    using SplitN2_command [of TAB l] by auto
  then have sw: "Run_switch callback (b\<lparr>io_unread := rest\<rparr>) (SplitN2 TAB l)
      = Inr ([], Some (errors_New ''Bad command''))"
    using assms(3) by (simp add: Run_switch_def)
  show ?thesis
    using Run_line_error [OF assms(1,2) sw] by (simp add: Replace_NL_def)
qed

lemma Run_end:
  assumes "NL \<notin> set (io_unread b)"
  shows "Run callback b =
     (if io_read_err b = io_EOF then (Returned None, b\<lparr>io_unread := []\<rparr>)
      else (Returned (Some (io_read_err b)), b\<lparr>io_unread := []\<rparr>))"
  by (subst Run.simps) (simp add: Run_iteration_end [OF assms])

lemma Run_line_bare_Q:
  "Run_iteration callback (b\<lparr>io_unread := ''Q'' @ NL # rest\<rparr>) =
     Stop (Panicked ''index out of range [1] with length 1'') (b\<lparr>io_unread := rest\<rparr>)"
proof -
  have n: "NL \<notin> set ''Q''" by simp
  have s: "SplitN2 TAB ''Q'' = [''Q'']" by (simp add: SplitN2_def)
  show ?thesis
    unfolding Run_iteration_line [OF n] s by (simp add: Run_switch_def)
qed

text \<open>
  C9 (as amended).  Whatever the negotiated version, on a channel where the next
  write and flush succeed: a line whose command token is \<open>PING\<close> makes the loop of
  \<open>Run\<close> flush exactly \<open>END\<close> and a line feed, no DATA line, and go on with the
  next line; a line whose command token is \<open>AXFR\<close> makes it flush the log line
  "Error handling line: AXFR requests not supported" and \<open>FAIL\<close>, and go on; a line
  whose command token is none of \<open>Q\<close>, \<open>PING\<close>, \<open>AXFR\<close> makes it flush the
  log line "Error handling line: Bad command" and \<open>FAIL\<close>, and go on.  The first
  message contains "not supported", the second "Bad command" with a capital B.
\<close>

theorem C9_Run_commands:
  assumes "NL \<notin> set l" and "can_write 2 b"
  shows "(takeWhile (\<lambda>c. c \<noteq> TAB) l = ''PING'' \<longrightarrow>
            Run_iteration callback (b\<lparr>io_unread := l @ NL # rest\<rparr>) =
              Continue (answered b rest (''END'' @ [NL]))
            \<and> Run callback (b\<lparr>io_unread := l @ NL # rest\<rparr>) =
              Run callback (answered b rest (''END'' @ [NL])))
     \<and> (takeWhile (\<lambda>c. c \<noteq> TAB) l = ''AXFR'' \<longrightarrow>
            Run_iteration callback (b\<lparr>io_unread := l @ NL # rest\<rparr>) =
              Continue (answered b rest (log_fail ''AXFR requests not supported''))
            \<and> Run callback (b\<lparr>io_unread := l @ NL # rest\<rparr>) =
              Run callback (answered b rest (log_fail ''AXFR requests not supported'')))
     \<and> (takeWhile (\<lambda>c. c \<noteq> TAB) l \<notin> {''Q'', ''PING'', ''AXFR''} \<longrightarrow>
            Run_iteration callback (b\<lparr>io_unread := l @ NL # rest\<rparr>) =
              Continue (answered b rest (log_fail ''Bad command''))
            \<and> Run callback (b\<lparr>io_unread := l @ NL # rest\<rparr>) =
              Run callback (answered b rest (log_fail ''Bad command'')))
     \<and> Contains (log_fail ''AXFR requests not supported'') ''not supported''
     \<and> Contains (log_fail ''Bad command'') ''Bad command''"
proof -
  note p = Run_line_PING [OF assms, where rest = rest and callback = callback]
  note a = Run_line_AXFR [OF assms, where rest = rest and callback = callback]
  note u = Run_line_unknown [OF assms, where rest = rest and callback = callback]
  have c: "Contains (log_fail ''AXFR requests not supported'') ''not supported''"
    "Contains (log_fail ''Bad command'') ''Bad command''"
    by (simp_all add: log_fail_def)
  show ?thesis
    using p a u Run_continue [OF p] Run_continue [OF a] Run_continue [OF u] c by blast
qed

theorem C9_witness:
  "Run EmptyDispatch (negotiated 3 (''PING'' @ NL # ''AXFR'' @ NL # ''GOGOGO'' @ [NL])) =
     (Returned None,
      (negotiated 3 [])\<lparr>io_flushed :=
         ''END'' @ NL #
         ''LOG'' @ TAB # ''Error handling line: AXFR requests not supported'' @ NL # ''FAIL'' @ NL #
         ''LOG'' @ TAB # ''Error handling line: Bad command'' @ NL # ''FAIL'' @ [NL]\<rparr>)"
proof -
  let ?b0 = "negotiated 3 (''PING'' @ NL # ''AXFR'' @ NL # ''GOGOGO'' @ [NL])"
  let ?b1 = "answered ?b0 (''AXFR'' @ NL # ''GOGOGO'' @ [NL]) (''END'' @ [NL])"
  let ?b2 = "answered ?b1 (''GOGOGO'' @ [NL]) (log_fail ''AXFR requests not supported'')"
  let ?b3 = "answered ?b2 [] (log_fail ''Bad command'')"
  have w: "can_write 2 ?b0" "can_write 2 ?b1" "can_write 2 ?b2"
    by (simp_all add: can_write_def spend_def answered_def negotiated_def backend_New_def)
  have e0: "?b0\<lparr>io_unread := ''PING'' @ NL # ''AXFR'' @ NL # ''GOGOGO'' @ [NL]\<rparr> = ?b0"
    by (simp add: negotiated_def backend_New_def)
  have e1: "?b1\<lparr>io_unread := ''AXFR'' @ NL # ''GOGOGO'' @ [NL]\<rparr> = ?b1"
    by (simp add: answered_def spend_def)
  have e2: "?b2\<lparr>io_unread := ''GOGOGO'' @ [NL]\<rparr> = ?b2"
    by (simp add: answered_def spend_def)
  have n: "NL \<notin> set ''PING''" "NL \<notin> set ''AXFR''" "NL \<notin> set ''GOGOGO''"
    by simp_all
  have s1: "Run EmptyDispatch ?b0 = Run EmptyDispatch ?b1"
    using C9_Run_commands [OF n(1) w(1), where callback = EmptyDispatch
        and rest = "''AXFR'' @ NL # ''GOGOGO'' @ [NL]"]
    unfolding e0 by simp
  have s2: "Run EmptyDispatch ?b1 = Run EmptyDispatch ?b2"
    using C9_Run_commands [OF n(2) w(2), where callback = EmptyDispatch
        and rest = "''GOGOGO'' @ [NL]"]
    unfolding e1 by simp
  have s3: "Run EmptyDispatch ?b2 = Run EmptyDispatch ?b3"
    using C9_Run_commands [OF n(3) w(3), where callback = EmptyDispatch and rest = "[]"]
    unfolding e2 by simp
  have s4: "Run EmptyDispatch ?b3 = (Returned None, ?b3\<lparr>io_unread := []\<rparr>)"
    using Run_end [where b = ?b3 and callback = EmptyDispatch]
    by (simp add: answered_def spend_def negotiated_def backend_New_def)
  have "Run EmptyDispatch ?b0 = (Returned None, ?b3\<lparr>io_unread := []\<rparr>)"
    using s1 s2 s3 s4 by simp
  then show ?thesis
    by (simp add: answered_def log_fail_def spend_def negotiated_def backend_New_def)
qed

text \<open>
  C9 as stated asks for a message containing "bad command": the message the code
  sends for the unknown command \<open>GOGOGO\<close> does not contain that text.
\<close>

theorem C9_counterexample:
  "io_flushed (snd (Run EmptyDispatch (negotiated 3 (''GOGOGO'' @ [NL])))) =
      ''LOG'' @ TAB # ''Error handling line: Bad command'' @ NL # ''FAIL'' @ [NL]
   \<and> \<not> Contains (io_flushed (snd (Run EmptyDispatch (negotiated 3 (''GOGOGO'' @ [NL])))))
        ''bad command''"
proof -
  let ?b0 = "negotiated 3 (''GOGOGO'' @ [NL])"
  let ?b1 = "answered ?b0 [] (log_fail ''Bad command'')"
  have w: "can_write 2 ?b0"
    by (simp add: can_write_def negotiated_def backend_New_def)
  have n: "NL \<notin> set ''GOGOGO''" by simp
  have u: "takeWhile (\<lambda>c. c \<noteq> TAB) ''GOGOGO'' \<notin> {''Q'', ''PING'', ''AXFR''}" by simp
  have e0: "?b0\<lparr>io_unread := ''GOGOGO'' @ NL # []\<rparr> = ?b0"
    by (simp add: negotiated_def backend_New_def)
  have "Run EmptyDispatch ?b0 = Run EmptyDispatch ?b1"
    using Run_continue [OF Run_line_unknown [OF n w u, where rest = "[]" and callback = EmptyDispatch]]
    unfolding e0 .
  also have "\<dots> = (Returned None, ?b1\<lparr>io_unread := []\<rparr>)"
    using Run_end [where b = ?b1 and callback = EmptyDispatch]
    by (simp add: answered_def spend_def negotiated_def backend_New_def)
  finally have out: "io_flushed (snd (Run EmptyDispatch ?b0)) =
      ''LOG'' @ TAB # ''Error handling line: Bad command'' @ NL # ''FAIL'' @ [NL]"
    by (simp add: answered_def log_fail_def spend_def negotiated_def backend_New_def)
  have "\<not> Contains (''LOG'' @ TAB # ''Error handling line: Bad command'' @ NL # ''FAIL'' @ [NL])
      ''bad command''"
    by simp
  with out show ?thesis by simp
qed

subsection \<open>How \<open>Run\<close> ends\<close>

text \<open>
  A \<open>Q\<close> line with a tab whose data does not decode is reported and the loop goes
  on: the path the tests exercise with \<open>Q\<close>, tab, \<open>foo\<close>.
\<close>

lemma Run_line_Q_undecodable:
  assumes "NL \<notin> set data" and "can_write 2 b"
    and "fromData (zero_Query\<lparr>Q_ProtocolVersion := B_ProtocolVersion b\<rparr>) data = Inl err"
  shows "Run_iteration callback (b\<lparr>io_unread := ''Q'' @ TAB # data @ NL # rest\<rparr>) =
     Continue (answered b rest (log_fail (Replace_NL (Error_text err))))"
proof -
  have n: "NL \<notin> set (''Q'' @ TAB # data)" using assms(1) by simp
  have s: "SplitN2 TAB (''Q'' @ TAB # data) = [''Q'', data]"
    using SplitN2_first [of TAB "''Q''" data] by simp
  have sw: "Run_switch callback (b\<lparr>io_unread := rest\<rparr>) (SplitN2 TAB (''Q'' @ TAB # data))
      = Inr ([], Some err)"
    unfolding s using assms(3) by (simp add: Run_switch_def handleQ_def)
  show ?thesis
    using Run_line_error [OF n assms(2) sw] by simp
qed

lemma first_line_Some:
  assumes "first_line s = Some (line, rest)"
  shows "\<exists>l. NL \<notin> set l \<and> line = l @ [NL] \<and> s = l @ NL # rest"
proof (cases "dropWhile (\<lambda>c. c \<noteq> NL) s")
  case Nil
  with assms show ?thesis unfolding first_line_def Nil by simp
next
  case (Cons d r)
  have c: "s = takeWhile (\<lambda>c. c \<noteq> NL) s @ d # r \<and> \<not> d \<noteq> NL"
    using Cons dropWhile_eq_Cons_conv [of "\<lambda>c. c \<noteq> NL" s d r] by blast
  then have d: "d = NL" by blast
  from c have s: "s = takeWhile (\<lambda>c. c \<noteq> NL) s @ d # r" by (rule conjunct1)
  have n: "NL \<notin> set (takeWhile (\<lambda>c. c \<noteq> NL) s)"
    using set_takeWhileD [of NL "\<lambda>c. c \<noteq> NL" s] by blast
  have "line = takeWhile (\<lambda>c. c \<noteq> NL) s @ [NL]" and "rest = r"
    using assms unfolding first_line_def Cons d by simp_all
  then show ?thesis using s [unfolded d] n by blast
qed

lemma Run_switch_panic:
  assumes "Run_switch callback b (SplitN2 TAB l) = Inl m"
  shows "l = ''Q''"
proof -
  obtain args where a: "SplitN2 TAB l = takeWhile (\<lambda>c. c \<noteq> TAB) l # args"
    using SplitN2_command [of TAB l] by blast
  from assms have q: "takeWhile (\<lambda>c. c \<noteq> TAB) l = ''Q''" and e: "args = []"
    unfolding a by (simp_all add: Run_switch_def split: if_splits list.splits)
  have "dropWhile (\<lambda>c. c \<noteq> TAB) l = []"
  proof (cases "dropWhile (\<lambda>c. c \<noteq> TAB) l")
    case Nil
    then show ?thesis .
  next
    case (Cons d r)
    have "SplitN2 TAB l = [takeWhile (\<lambda>c. c \<noteq> TAB) l, r]"
      unfolding SplitN2_def Cons by simp
    with a e show ?thesis by simp
  qed
  then have "takeWhile (\<lambda>c. c \<noteq> TAB) l = l"
    using takeWhile_dropWhile_id [of "\<lambda>c. c \<noteq> TAB" l] by simp
  with q show ?thesis by simp
qed

lemma WriteString_result:
  "WriteString s b = (w, b') \<Longrightarrow>
     io_read_err b' = io_read_err b \<and> (w \<noteq> None \<longrightarrow> io_budget b' = Some 0)"
  by (auto simp: WriteString_def split: option.splits nat.splits)

lemma Flush_result:
  "Flush b = (w, b') \<Longrightarrow>
     io_read_err b' = io_read_err b \<and> (w \<noteq> None \<longrightarrow> io_budget b' = Some 0)"
  by (auto simp: Flush_def split: option.splits nat.splits)

lemma write_responses_result:
  "write_responses rs b = (w, b') \<Longrightarrow>
     io_read_err b' = io_read_err b \<and> (w \<noteq> None \<longrightarrow> io_budget b' = Some 0)"
proof (induction rs arbitrary: b)
  case Nil
  then show ?case by simp
next
  case (Cons r rs)
  define data where "data =
    (case Response_String (r\<lparr>R_ProtocolVersion := B_ProtocolVersion b\<rparr>) of
       Inl err \<Rightarrow> ''LOG'' @ TAB # ''Error serialising response: '' @ Error_text err @ [NL]
     | Inr s \<Rightarrow> s)"
  obtain x b1 where x: "WriteString data b = (x, b1)" by (metis surj_pair)
  note k = WriteString_result [OF x]
  show ?case
  proof (cases x)
    case None
    with Cons.prems x have "write_responses rs b1 = (w, b')" by (simp add: data_def)
    from Cons.IH [OF this] k show ?thesis by simp
  next
    case (Some werr)
    with Cons.prems x have "b' = b1" by (simp add: data_def)
    with k Some show ?thesis by simp
  qed
qed

lemma Run_fail_result:
  "Run_fail err b = f \<Longrightarrow>
     (case f of
        Continue b' \<Rightarrow> io_read_err b' = io_read_err b
      | Stop e b' \<Rightarrow> (\<exists>x. e = Returned (Some x)) \<and> io_budget b' = Some 0)"
proof -
  assume r: "Run_fail err b = f"
  let ?msg = "''LOG'' @ TAB # ''Error handling line: '' @ Replace_NL (Error_text err) @ NL # ''FAIL'' @ [NL]"
  obtain w b1 where w: "WriteString ?msg b = (w, b1)" by (metis surj_pair)
  obtain x b2 where x: "Flush b1 = (x, b2)" by (metis surj_pair)
  note kw = WriteString_result [OF w] and kx = Flush_result [OF x]
  show ?thesis
    using r [symmetric] w x kw kx
    by (cases w; cases x) (simp_all add: Run_fail_def)
qed

lemma Run_respond_result:
  "Run_respond rs b = f \<Longrightarrow>
     (case f of
        Continue b' \<Rightarrow> io_read_err b' = io_read_err b
      | Stop e b' \<Rightarrow> (\<exists>x. e = Returned (Some x)) \<and> io_budget b' = Some 0)"
proof -
  assume r: "Run_respond rs b = f"
  obtain d b1 where d: "write_responses rs b = (d, b1)" by (metis surj_pair)
  obtain w b2 where w: "WriteString (''END'' @ [NL]) b1 = (w, b2)" by (metis surj_pair)
  obtain x b3 where x: "Flush b2 = (x, b3)" by (metis surj_pair)
  note kd = write_responses_result [OF d] and kw = WriteString_result [OF w]
    and kx = Flush_result [OF x]
  show ?thesis
    using r [symmetric] d w x kd kw kx
    by (cases d; cases w; cases x) (simp_all add: Run_respond_def)
qed

text \<open>How a pass of the loop can end, and what a pass that continues has consumed.\<close>

lemma Run_iteration_result:
  assumes "Run_iteration callback b = f"
  shows "case f of
      Continue b1 \<Rightarrow>
        (\<exists>l. NL \<notin> set l \<and> l \<noteq> ''Q'' \<and> io_unread b = l @ NL # io_unread b1)
        \<and> io_read_err b1 = io_read_err b
    | Stop (Returned None) b' \<Rightarrow>
        NL \<notin> set (io_unread b) \<and> io_read_err b = io_EOF
    | Stop (Returned (Some err)) b' \<Rightarrow>
        (NL \<notin> set (io_unread b) \<and> err = io_read_err b \<and> err \<noteq> io_EOF)
        \<or> io_budget b' = Some 0
    | Stop (Panicked m) b' \<Rightarrow>
        m = ''index out of range [1] with length 1'' \<and> io_unread b = ''Q'' @ NL # io_unread b'"
proof (cases "first_line (io_unread b)")
  case None
  then have "dropWhile (\<lambda>c. c \<noteq> NL) (io_unread b) = []"
    by (cases "dropWhile (\<lambda>c. c \<noteq> NL) (io_unread b)") (simp_all add: first_line_def)
  then have n: "NL \<notin> set (io_unread b)" by auto
  show ?thesis
    using assms [symmetric] n by (simp add: Run_iteration_end [OF n])
next
  case (Some p)
  obtain line rest where p: "p = (line, rest)" by (metis surj_pair)
  from first_line_Some [OF Some [unfolded p]]
  obtain l where l: "NL \<notin> set l" "io_unread b = l @ NL # rest" by blast
  have b: "b\<lparr>io_unread := l @ NL # rest\<rparr> = b" using l(2) by simp
  let ?b1 = "b\<lparr>io_unread := rest\<rparr>"
  note it = Run_iteration_line [OF l(1), where callback = callback and b = b and rest = rest,
      unfolded b]
  show ?thesis
  proof (cases "Run_switch callback ?b1 (SplitN2 TAB l)")
    case (Inl fault)
    then have q: "l = ''Q''" by (rule Run_switch_panic)
    have "SplitN2 TAB ''Q'' = [''Q'']" by (simp add: SplitN2_def)
    with Inl q have "fault = ''index out of range [1] with length 1''"
      by (simp add: Run_switch_def)
    with assms [symmetric] it Inl l(2) q show ?thesis by simp
  next
    case (Inr res)
    obtain rs e where res: "res = (rs, e)" by (metis surj_pair)
    have nq: "l \<noteq> ''Q''"
    proof
      assume "l = ''Q''"
      then have "Run_switch callback ?b1 (SplitN2 TAB l) = Inl ''index out of range [1] with length 1''"
        by (simp add: SplitN2_def Run_switch_def)
      with Inr show False by simp
    qed
    show ?thesis
    proof (cases e)
      case None
      with assms it Inr res have f: "Run_respond rs ?b1 = f" by simp
      from Run_respond_result [OF f] show ?thesis
      proof (cases f)
        case (Continue b1)
        from Run_respond_unread [OF f [unfolded Continue]] have "io_unread b1 = rest" by simp
        with Run_respond_result [OF f] Continue l nq show ?thesis by auto
      next
        case (Stop e' b')
        with Run_respond_result [OF f] show ?thesis by auto
      qed
    next
      case (Some err)
      with assms it Inr res have f: "Run_fail err ?b1 = f" by simp
      show ?thesis
      proof (cases f)
        case (Continue b1)
        from Run_fail_unread [OF f [unfolded Continue]] have "io_unread b1 = rest" by simp
        with Run_fail_result [OF f] Continue l nq show ?thesis by auto
      next
        case (Stop e' b')
        with Run_fail_result [OF f] show ?thesis by auto
      qed
    qed
  qed
qed

lemma bare_Q_line_first: "bare_Q_line (''Q'' @ NL # rest) rest"
  unfolding bare_Q_line_def by (rule exI [of _ "[]"]) simp

lemma bare_Q_line_later: "bare_Q_line s rest \<Longrightarrow> bare_Q_line (l @ NL # s) rest"
proof -
  assume "bare_Q_line s rest"
  then obtain pre where p: "s = pre @ ''Q'' @ NL # rest" "pre = [] \<or> last pre = NL"
    unfolding bare_Q_line_def by blast
  have "l @ NL # s = (l @ NL # pre) @ ''Q'' @ NL # rest" using p(1) by simp
  moreover have "last (l @ NL # pre) = NL" using p(2) by auto
  ultimately show ?thesis unfolding bare_Q_line_def by blast
qed

text \<open>
  Every way \<open>Run\<close> can end: it returns nil only at end-of-stream, it returns an
  error only for a read error other than \<open>io.EOF\<close> or on a channel whose write or
  flush failed, and it panics only on a line that is \<open>Q\<close> alone.
\<close>

lemma Run_result:
  "Run callback b = (e, b') \<Longrightarrow>
     (case e of
        Returned None \<Rightarrow> io_read_err b = io_EOF
      | Returned (Some err) \<Rightarrow> (err = io_read_err b \<and> err \<noteq> io_EOF) \<or> io_budget b' = Some 0
      | Panicked m \<Rightarrow>
          m = ''index out of range [1] with length 1'' \<and> bare_Q_line (io_unread b) (io_unread b'))"
proof (induction callback b rule: Run.induct)
  case (1 callback b)
  show ?case
  proof (cases "Run_iteration callback b")
    case (Continue b1)
    from Run_iteration_result [OF Continue]
    obtain l where l: "io_unread b = l @ NL # io_unread b1" and r: "io_read_err b1 = io_read_err b"
      by auto
    have "Run callback b1 = (e, b')"
      using "1.prems" Continue by (subst (asm) Run.simps) simp
    from "1.IH" [OF Continue this] show ?thesis
      unfolding l r by (auto split: run_end.splits option.splits intro: bare_Q_line_later)
  next
    case (Stop e0 b0)
    have "e0 = e" "b0 = b'"
      using "1.prems" Stop by (subst (asm) Run.simps, simp)+
    with Run_iteration_result [OF Stop] show ?thesis
      by (auto split: run_end.splits option.splits intro: bare_Q_line_first [simplified])
  qed
qed

lemma write_responses_healthy:
  "io_budget b = None \<Longrightarrow> write_responses rs b = (w, b') \<Longrightarrow> w = None \<and> io_budget b' = None"
proof (induction rs arbitrary: b)
  case Nil
  then show ?case by simp
next
  case (Cons r rs)
  define data where "data =
    (case Response_String (r\<lparr>R_ProtocolVersion := B_ProtocolVersion b\<rparr>) of
       Inl err \<Rightarrow> ''LOG'' @ TAB # ''Error serialising response: '' @ Error_text err @ [NL]
     | Inr s \<Rightarrow> s)"
  have x: "WriteString data b = (None, b\<lparr>io_buffered := io_buffered b @ data\<rparr>)"
    using Cons.prems(1) by (simp add: WriteString_def)
  have "write_responses rs (b\<lparr>io_buffered := io_buffered b @ data\<rparr>) = (w, b')"
    using Cons.prems(2) x by (simp add: data_def)
  moreover have "io_budget (b\<lparr>io_buffered := io_buffered b @ data\<rparr>) = None"
    using Cons.prems(1) by simp
  ultimately show ?case using Cons.IH by blast
qed

lemma Run_iteration_healthy:
  assumes "io_budget b = None" and "Run_iteration callback b = f"
  shows "case f of
      Continue b1 \<Rightarrow> io_budget b1 = None
    | Stop e b' \<Rightarrow> io_budget b' = None"
proof -
  have w: "\<And>s (b::Backend). io_budget b = None \<Longrightarrow>
      WriteString s b = (None, b\<lparr>io_buffered := io_buffered b @ s\<rparr>)"
    by (simp add: WriteString_def)
  have fl: "\<And>b::Backend. io_budget b = None \<Longrightarrow>
      Flush b = (None, b\<lparr>io_flushed := io_flushed b @ io_buffered b, io_buffered := []\<rparr>)"
    by (simp add: Flush_def)
  have rf: "\<And>err (b::Backend). io_budget b = None \<Longrightarrow>
      (case Run_fail err b of Continue b1 \<Rightarrow> io_budget b1 = None | Stop e b' \<Rightarrow> io_budget b' = None)"
    by (simp add: Run_fail_def Let_def w fl)
  have rr: "\<And>rs (b::Backend). io_budget b = None \<Longrightarrow>
      (case Run_respond rs b of Continue b1 \<Rightarrow> io_budget b1 = None | Stop e b' \<Rightarrow> io_budget b' = None)"
  proof -
    fix rs and b :: Backend assume h: "io_budget b = None"
    obtain d b1 where d: "write_responses rs b = (d, b1)" by (metis surj_pair)
    from write_responses_healthy [OF h d] have "d = None" "io_budget b1 = None" by simp_all
    then show "case Run_respond rs b of Continue b1 \<Rightarrow> io_budget b1 = None
        | Stop e b' \<Rightarrow> io_budget b' = None"
      using d by (simp add: Run_respond_def w fl)
  qed
  obtain p b1 where p: "ReadString NL b = (p, b1)" by (cases "ReadString NL b")
  obtain line err where "p = (line, err)" by (cases p)
  with p have r: "ReadString NL b = ((line, err), b1)" by simp
  have "io_budget b1 = io_budget b"
  proof (cases "first_line (io_unread b)")
    case None
    with r have "b1 = b\<lparr>io_unread := []\<rparr>" by (simp add: ReadString_first_line)
    then show ?thesis by simp
  next
    case (Some q)
    obtain l rest where "q = (l, rest)" by (cases q)
    with r Some have "b1 = b\<lparr>io_unread := rest\<rparr>" by (simp add: ReadString_first_line)
    then show ?thesis by simp
  qed
  then have b1: "io_budget b1 = None" using assms(1) by simp
  show ?thesis
  proof (cases err)
    case (Some x)
    with assms(2) r b1 show ?thesis
      by (auto simp: Run_iteration_def split: if_splits)
  next
    case None
    show ?thesis
    proof (cases "Run_switch callback b1 (SplitN2 TAB (TrimRight line [NL]))")
      case (Inl fault)
      with assms(2) r None b1 show ?thesis by (auto simp: Run_iteration_def)
    next
      case (Inr res)
      obtain rs e where res: "res = (rs, e)" by (metis surj_pair)
      show ?thesis
        using assms(2) r None Inr res rf [OF b1] rr [OF b1]
        by (cases e) (auto simp: Run_iteration_def)
    qed
  qed
qed

lemma Run_healthy: "io_budget b = None \<Longrightarrow> io_budget (snd (Run callback b)) = None"
proof (induction callback b rule: Run.induct)
  case (1 callback b)
  show ?case
  proof (cases "Run_iteration callback b")
    case (Continue b1)
    from Run_iteration_healthy [OF "1.prems" Continue] have "io_budget b1 = None" by simp
    from "1.IH" [OF Continue this] show ?thesis
      using Continue by (subst Run.simps) simp
  next
    case (Stop e0 b0)
    from Run_iteration_healthy [OF "1.prems" Stop] show ?thesis
      using Stop by (subst Run.simps) simp
  qed
qed

text \<open>
  On a channel that never fails and a stream that ends in \<open>io.EOF\<close>, an input
  with no line that is \<open>Q\<close> alone makes \<open>Run\<close> return nil.
\<close>

lemma Run_returns_nil:
  assumes "io_budget b = None" and "io_read_err b = io_EOF"
    and "\<forall>rest. \<not> bare_Q_line (io_unread b) rest"
  shows "fst (Run callback b) = Returned None"
proof -
  obtain e b' where r: "Run callback b = (e, b')" by (metis surj_pair)
  have h: "io_budget b' = None" using Run_healthy [OF assms(1), of callback] r by simp
  from Run_result [OF r] assms(2,3) h have "e = Returned None"
    by (cases e) (auto split: option.splits)
  with r show ?thesis by simp
qed

text \<open>
  C1.  The line \<open>Q\<close> followed directly by a line feed, with no tab after the
  command token: \<open>SplitN\<close> gives the single part \<open>Q\<close>, the \<open>Q\<close> branch reads
  \<open>parts[1]\<close>, and \<open>Run\<close> ends in the run-time panic "index out of range [1]
  with length 1", for every callback, version and channel, having written nothing
  for that line and leaving the lines after it unread.
\<close>

theorem C1_bare_Q_faults:
  "Run_iteration callback (b\<lparr>io_unread := ''Q'' @ NL # rest\<rparr>) =
     Stop (Panicked ''index out of range [1] with length 1'') (b\<lparr>io_unread := rest\<rparr>)
   \<and> Run callback (b\<lparr>io_unread := ''Q'' @ NL # rest\<rparr>) =
     (Panicked ''index out of range [1] with length 1'', b\<lparr>io_unread := rest\<rparr>)"
proof -
  note it = Run_line_bare_Q [where callback = callback and b = b and rest = rest]
  from it Run_stop [OF it] show ?thesis by (rule conjI)
qed

theorem C1_witness:
  "Run EmptyDispatch (negotiated 3 (''Q'' @ NL # ''PING'' @ [NL])) =
     (Panicked ''index out of range [1] with length 1'', negotiated 3 (''PING'' @ [NL]))"
  using C1_bare_Q_faults [where callback = EmptyDispatch and b = "negotiated 3 []"
      and rest = "''PING'' @ [NL]"]
  by (simp add: negotiated_def backend_New_def)

end
